theory Spec2Isabelle
  imports Complex_Main
begin

section \<open>Pointillism G-code generator: shallow embedding\<close>

text \<open>
  The development follows \<^verbatim>\<open>pointillism_gcode_generator.py\<close>. Python floats are
  idealised as \<^typ>\<open>real\<close>, Python integers are \<^typ>\<open>int\<close> (or \<^typ>\<open>nat\<close> for
  loop indices and sizes that cannot be negative), and every exception the code can raise
  is a value of \<open>py_error\<close> on the left of a sum.
\<close>

datatype py_error = IndexError | KeyError | ZeroDivisionError | TypeError

subsection \<open>Module constants\<close>

definition STATION_X0 :: real where "STATION_X0 = 0"
definition STATION_Y0 :: real where "STATION_Y0 = 400"
definition STATION_DX :: real where "STATION_DX = 100"
definition STATION_DY :: real where "STATION_DY = 0"

definition DIP_OFFSET_X :: real where "DIP_OFFSET_X = 0"
definition DIP_OFFSET_Y :: real where "DIP_OFFSET_Y = 0"
definition DIP_OFFSET_Z :: real where "DIP_OFFSET_Z = - 3"

definition BLOT_OFFSET_X :: real where "BLOT_OFFSET_X = 0"
definition BLOT_OFFSET_Y :: real where "BLOT_OFFSET_Y = 60"
definition BLOT_OFFSET_Z :: real where "BLOT_OFFSET_Z = - 2"

definition Z_PICK :: real where "Z_PICK = - 5"
definition Z_SAFE :: real where "Z_SAFE = 15"
definition Z_TRAVEL :: real where "Z_TRAVEL = 10"
definition Z_PREPAINT :: real where "Z_PREPAINT = 2"
definition Z_PAINT :: real where "Z_PAINT = - 1"

definition FEED_TRAVEL :: nat where "FEED_TRAVEL = 2500"
definition FEED_Z :: nat where "FEED_Z = 600"
definition DAB_DWELL_S :: real where "DAB_DWELL_S = 5 / 100"
definition RE_DIP_EVERY_N_DOTS :: nat where "RE_DIP_EVERY_N_DOTS = 120"
definition RE_DIP_AFTER_TRAVEL_MM :: real where "RE_DIP_AFTER_TRAVEL_MM = 180"
definition CLEAN_AT_END :: bool where "CLEAN_AT_END = True"
definition TIME_SCALE :: real where "TIME_SCALE = 1000"
definition WHITE_THRESHOLD :: int where "WHITE_THRESHOLD = 240"

definition COLOR_ORDER_RGB6 :: "string list" where
  "COLOR_ORDER_RGB6 = [''black'', ''blue'', ''red'', ''green'', ''yellow'', ''white'']"

definition COLOR_ORDER_CMYK :: "string list" where
  "COLOR_ORDER_CMYK = [''yellow'', ''magenta'', ''cyan'', ''black'']"

text \<open>Dictionaries whose iteration order matters are association lists in insertion order.\<close>

definition PALETTES :: "(string \<times> string list) list" where
  "PALETTES = [(''rgb6'', COLOR_ORDER_RGB6), (''cmyk'', COLOR_ORDER_CMYK)]"

type_synonym rgb = "int \<times> int \<times> int"

definition PALETTE_RGB :: "(string \<times> rgb) list" where
  "PALETTE_RGB =
     [(''red'', (220, 20, 60)),
      (''green'', (34, 139, 34)),
      (''blue'', (30, 144, 255)),
      (''yellow'', (255, 215, 0)),
      (''black'', (0, 0, 0)),
      (''white'', (255, 255, 255))]"

subsection \<open>Stations\<close>

record Station =
  sname :: string
  sx :: real
  sy :: real
  z_pick :: real
  z_safe :: real
  dip_x :: real
  dip_y :: real
  dip_z :: real
  blot_x :: real
  blot_y :: real
  blot_z :: real
  dip_dwell_s :: real
  blot_dwell_s :: real

definition station_at :: "nat \<Rightarrow> string \<Rightarrow> Station" where
  "station_at i color =
     (let x = STATION_X0 + real i * STATION_DX;
          y = STATION_Y0 + real i * STATION_DY
      in \<lparr> sname = color, sx = x, sy = y,
           z_pick = Z_PICK, z_safe = Z_SAFE,
           dip_x = x + DIP_OFFSET_X, dip_y = y + DIP_OFFSET_Y, dip_z = DIP_OFFSET_Z,
           blot_x = x + BLOT_OFFSET_X, blot_y = y + BLOT_OFFSET_Y, blot_z = BLOT_OFFSET_Z,
           dip_dwell_s = 1, blot_dwell_s = 1 / 2 \<rparr>)"

text \<open>
  \<^verbatim>\<open>make_stations(palette)\<close>: \<open>PALETTES[palette]\<close> raises \<open>KeyError\<close> for an unknown
  palette; the loop stores one station per colour, a later colour of the same name
  overwriting an earlier one.
\<close>

definition make_stations :: "string \<Rightarrow> py_error + (string \<rightharpoonup> Station)" where
  "make_stations palette =
     (case map_of PALETTES palette of
        None \<Rightarrow> Inl KeyError
      | Some colors \<Rightarrow>
          Inr (foldl (\<lambda>stations (i, color). stations(color \<mapsto> station_at i color))
                 Map.empty (enumerate 0 colors)))"

subsection \<open>Nearest palette colour\<close>

definition dist2 :: "rgb \<Rightarrow> rgb \<Rightarrow> int" where
  "dist2 p q = (case p of (r, g, b) \<Rightarrow> case q of (R, G, B) \<Rightarrow>
     (r - R)\<^sup>2 + (g - G)\<^sup>2 + (b - B)\<^sup>2)"

text \<open>
  The loop of \<^verbatim>\<open>nearest_palette_color\<close> over \<open>PALETTE_RGB.items()\<close>, with its state
  \<open>(best, best_d2)\<close>; the start value \<open>1e18\<close> is the integer \<open>10^18\<close>.
\<close>

fun nearest_loop :: "rgb \<Rightarrow> (string \<times> rgb) list \<Rightarrow> string option \<times> int \<Rightarrow> string option \<times> int" where
  "nearest_loop p [] s = s"
| "nearest_loop p ((name, q) # rest) (best, best_d2) =
     (let d2 = dist2 p q
      in if d2 < best_d2 then nearest_loop p rest (Some name, d2)
         else nearest_loop p rest (best, best_d2))"

definition nearest_palette_color :: "rgb \<Rightarrow> string option" where
  "nearest_palette_color p = fst (nearest_loop p PALETTE_RGB (None, 10 ^ 18))"

text \<open>
  The classification step of \<^verbatim>\<open>main\<close> in rgb6 mode: a pixel with all three channels
  at or above \<open>WHITE_THRESHOLD\<close> is skipped, any other is given to
  \<^verbatim>\<open>nearest_palette_color\<close>.
\<close>

datatype pixel_class = Skipped | Assigned "string option"

definition classify_pixel :: "rgb \<Rightarrow> pixel_class" where
  "classify_pixel p = (case p of (r, g, b) \<Rightarrow>
     if WHITE_THRESHOLD \<le> r \<and> WHITE_THRESHOLD \<le> g \<and> WHITE_THRESHOLD \<le> b then Skipped
     else Assigned (nearest_palette_color p))"

subsection \<open>Subtractive conversion\<close>

definition py_truediv :: "real \<Rightarrow> real \<Rightarrow> py_error + real" where
  "py_truediv a b = (if b = 0 then Inl ZeroDivisionError else Inr (a / b))"

definition rgb_to_cmyk :: "int \<Rightarrow> int \<Rightarrow> int \<Rightarrow> py_error + (real \<times> real \<times> real \<times> real)" where
  "rgb_to_cmyk r g b =
     (let R = real_of_int r / 255; G = real_of_int g / 255; B = real_of_int b / 255;
          K = 1 - max R (max G B)
      in if 1 \<le> K then Inr (0, 0, 0, 1)
         else case py_truediv (1 - R - K) (1 - K) of Inl e \<Rightarrow> Inl e | Inr C \<Rightarrow>
              case py_truediv (1 - G - K) (1 - K) of Inl e \<Rightarrow> Inl e | Inr M \<Rightarrow>
              case py_truediv (1 - B - K) (1 - K) of Inl e \<Rightarrow> Inl e | Inr Y \<Rightarrow>
              Inr (C, M, Y, K))"

subsection \<open>Serpentine traversal\<close>

text \<open>
  \<^verbatim>\<open>serpentine_indices(w,h)\<close>: for each row \<open>j\<close> the list \<open>[(i,j) for i in range(w)]\<close>,
  reversed when \<open>j%2==1\<close>, appended to the order.
\<close>

definition serpentine_row :: "nat \<Rightarrow> nat \<Rightarrow> (nat \<times> nat) list" where
  "serpentine_row w j =
     (let row = map (\<lambda>i. (i, j)) [0..<w] in if j mod 2 = 1 then rev row else row)"

definition serpentine_indices :: "nat \<Rightarrow> nat \<Rightarrow> (nat \<times> nat) list" where
  "serpentine_indices w h = concat (map (serpentine_row w) [0..<h])"

subsection \<open>Instruction stream\<close>

text \<open>
  The generator appends text lines. A line is modelled by its kind and the numbers that
  are formatted into it (the rendering of a float with \<^verbatim>\<open>:.3f\<close> is not modelled):
  \<^item> \<open>Remark\<close>: a comment line in parentheses;
  \<^item> \<open>Code\<close>: a fixed word such as \<^verbatim>\<open>G21\<close> or \<^verbatim>\<open>M2\<close>;
  \<^item> \<open>Gmove n X Y Z F\<close>: the motion word \<^verbatim>\<open>G0\<close> or \<^verbatim>\<open>G1\<close> with the axis and feed
    words that the line carries;
  \<^item> \<open>Dwell p\<close>: \<^verbatim>\<open>G4 P...\<close>.
\<close>

datatype remark =
    Title
  | GridInfo nat nat real
  | ColorHeader string nat
  | Pickup string
  | Return string
  | Dip string

datatype gline =
    Remark remark
  | Code string
  | Gmove nat "real option" "real option" "real option" "nat option"
  | Dwell real

record args =
  width_mm :: real
  height_mm :: real
  dot_pitch_mm :: real
  origin_x :: real
  origin_y :: real
  margin_mm :: real
  palette :: string

subsection \<open>The helpers of \<^verbatim>\<open>gen_gcode\<close>\<close>

definition xy_of_pixel :: "args \<Rightarrow> nat \<Rightarrow> nat \<Rightarrow> real \<times> real" where
  "xy_of_pixel a px py =
     (let origin_x' = origin_x a + margin_mm a;
          origin_y' = origin_y a + margin_mm a
      in (origin_x' + real px * dot_pitch_mm a, origin_y' + real py * dot_pitch_mm a))"

definition move_xy :: "real \<Rightarrow> real \<Rightarrow> gline list" where
  "move_xy x y = [Gmove 0 (Some x) (Some y) None (Some FEED_TRAVEL)]"

definition move_z :: "real \<Rightarrow> gline list" where
  "move_z z = [Gmove 1 None None (Some z) (Some FEED_Z)]"

definition dwell :: "real \<Rightarrow> gline list" where
  "dwell s = [Dwell (s * TIME_SCALE)]"

text \<open>
  The helpers below read \<open>stations[color]\<close> first. The dictionary is never changed, so the
  caller looks the station up once (raising \<open>KeyError\<close> there) and passes it on.
\<close>

definition pickup_brush :: "Station \<Rightarrow> string \<Rightarrow> gline list" where
  "pickup_brush st color =
     Remark (Pickup color) #
     move_xy (sx st) (sy st) @ move_z (z_safe st) @ move_z (z_pick st) @ dwell (3 / 10) @
     move_z (z_safe st)"

definition return_brush :: "Station \<Rightarrow> string \<Rightarrow> gline list" where
  "return_brush st color =
     Remark (Return color) #
     move_xy (sx st) (sy st) @ move_z (z_safe st) @ move_z (z_pick st) @ dwell (3 / 10) @
     move_z (z_safe st)"

definition dip_brush :: "Station \<Rightarrow> string \<Rightarrow> gline list" where
  "dip_brush st color =
     Remark (Dip color) #
     move_xy (dip_x st) (dip_y st) @ move_z (z_safe st) @ move_z (dip_z st) @
     dwell (dip_dwell_s st) @ move_z (z_safe st) @
     move_xy (blot_x st) (blot_y st) @ move_z (z_safe st) @ move_z (blot_z st) @
     dwell (blot_dwell_s st) @ move_z (z_safe st)"

definition paint_dot :: "real \<Rightarrow> real \<Rightarrow> real \<Rightarrow> gline list" where
  "paint_dot x y dwell_time =
     move_xy x y @ move_z Z_PREPAINT @ move_z Z_PAINT @ dwell dwell_time @ move_z Z_TRAVEL"

definition hypot :: "real \<Rightarrow> real \<Rightarrow> real" where
  "hypot a b = sqrt (a\<^sup>2 + b\<^sup>2)"

subsection \<open>The dab loop of one colour\<close>

text \<open>
  The loop \<^verbatim>\<open>for (px,py) in serp\<close>, with its state \<open>(dots_since, travel_since, last)\<close>
  (\<open>last\<close> is written \<open>last_xy\<close>).
  The two thresholds \<open>RE_DIP_EVERY_N_DOTS\<close> and \<open>RE_DIP_AFTER_TRAVEL_MM\<close> are the
  parameters \<open>n\<close> and \<open>d\<close>; \<^verbatim>\<open>gen_gcode\<close> passes the module constants.
\<close>

type_synonym dab_state = "nat \<times> real \<times> (real \<times> real) option"

fun dab_loop ::
  "nat \<Rightarrow> real \<Rightarrow> args \<Rightarrow> Station \<Rightarrow> string \<Rightarrow> (nat \<times> nat) list \<Rightarrow> dab_state \<Rightarrow>
   (nat \<times> nat) list \<Rightarrow> gline list" where
  "dab_loop n d a st color pts s [] = []"
| "dab_loop n d a st color pts (dots_since, travel_since, last_xy) ((px, py) # serp) =
     (if (px, py) \<notin> set pts then dab_loop n d a st color pts (dots_since, travel_since, last_xy) serp
      else
        let (x_mm, y_mm) = xy_of_pixel a px py;
            travel_since = (case last_xy of
                None \<Rightarrow> travel_since
              | Some (lx, ly) \<Rightarrow> travel_since + hypot (x_mm - lx) (y_mm - ly));
            redip = (n \<le> dots_since \<or> (0 < d \<and> d \<le> travel_since))
        in (if redip then dip_brush st color else []) @
           paint_dot x_mm y_mm DAB_DWELL_S @
           dab_loop n d a st color pts
             ((if redip then 0 else dots_since) + 1, (if redip then 0 else travel_since),
              Some (x_mm, y_mm)) serp)"

subsection \<open>\<^verbatim>\<open>gen_gcode\<close>\<close>

definition color_block ::
  "args \<Rightarrow> (nat \<times> nat) list \<Rightarrow> Station \<Rightarrow> string \<Rightarrow> (nat \<times> nat) list \<Rightarrow> gline list" where
  "color_block a serp st color pts =
     Remark (ColorHeader color (length pts)) #
     pickup_brush st color @ dip_brush st color @
     dab_loop RE_DIP_EVERY_N_DOTS RE_DIP_AFTER_TRAVEL_MM a st color pts (0, 0, None) serp @
     (if CLEAN_AT_END
      then move_xy (blot_x st) (blot_y st) @ move_z (z_safe st) @ move_z (blot_z st) @
           dwell (3 / 10) @ move_z (z_safe st)
      else []) @
     return_brush st color"

text \<open>
  The loop \<^verbatim>\<open>for color in color_order\<close>: \<open>color_points[color]\<close> and \<open>stations[color]\<close>
  raise \<open>KeyError\<close> for a missing key; a colour with an empty list is skipped before its
  station is looked at.
\<close>

fun color_loop ::
  "(string \<rightharpoonup> (nat \<times> nat) list) \<Rightarrow> (string \<rightharpoonup> Station) \<Rightarrow> args \<Rightarrow> (nat \<times> nat) list \<Rightarrow>
   string list \<Rightarrow> py_error + gline list" where
  "color_loop color_points stations a serp [] = Inr []"
| "color_loop color_points stations a serp (color # rest) =
     (case color_points color of
        None \<Rightarrow> Inl KeyError
      | Some pts \<Rightarrow>
          if pts = [] then color_loop color_points stations a serp rest
          else (case stations color of
              None \<Rightarrow> Inl KeyError
            | Some st \<Rightarrow>
                (case color_loop color_points stations a serp rest of
                   Inl e \<Rightarrow> Inl e
                 | Inr ls \<Rightarrow> Inr (color_block a serp st color pts @ ls))))"

definition gen_gcode ::
  "(string \<rightharpoonup> (nat \<times> nat) list) \<Rightarrow> string list \<Rightarrow> nat \<Rightarrow> nat \<Rightarrow> (string \<rightharpoonup> Station) \<Rightarrow>
   args \<Rightarrow> py_error + gline list" where
  "gen_gcode color_points color_order grid_cols grid_rows stations a =
     (case color_loop color_points stations a (serpentine_indices grid_cols grid_rows)
             color_order of
        Inl e \<Rightarrow> Inl e
      | Inr body \<Rightarrow>
          Inr ([Remark Title, Remark (GridInfo grid_cols grid_rows (dot_pitch_mm a)),
                Code ''G21'', Code ''G90'', Code ''G94'',
                Gmove 0 None None (Some Z_TRAVEL) None] @
               body @
               [Gmove 0 None None (Some Z_TRAVEL) None,
                Gmove 0 (Some 0) (Some 0) None None,
                Code ''M2'']))"



subsection \<open>Error diffusion\<close>

text \<open>Running a fallible function over a list, stopping at the first exception.\<close>

fun map_err :: "('a \<Rightarrow> py_error + 'b) \<Rightarrow> 'a list \<Rightarrow> py_error + 'b list" where
  "map_err f [] = Inr []"
| "map_err f (x # xs) =
     (case f x of
        Inl e \<Rightarrow> Inl e
      | Inr y \<Rightarrow> (case map_err f xs of Inl e \<Rightarrow> Inl e | Inr ys \<Rightarrow> Inr (y # ys)))"

text \<open>
  \<^verbatim>\<open>floyd_steinberg_dither_channel(img_chan, w, h)\<close> on list values. The copy
  \<open>arr = [[img_chan[y][x] for x in range(w)] for y in range(h)]\<close> raises \<open>IndexError\<close>
  when the plane has fewer than \<open>h\<close> rows or a row read has fewer than \<open>w\<close> entries (the
  indices are never negative). After it, \<open>arr\<close> and \<open>out\<close> have \<open>h\<close> rows of \<open>w\<close> entries and
  every index used by the loop is in range.
\<close>

definition read_cell :: "real list list \<Rightarrow> nat \<Rightarrow> nat \<Rightarrow> py_error + real" where
  "read_cell img_chan y x =
     (if y < length img_chan \<and> x < length (img_chan ! y) then Inr (img_chan ! y ! x)
      else Inl IndexError)"

definition copy_plane :: "real list list \<Rightarrow> nat \<Rightarrow> nat \<Rightarrow> py_error + real list list" where
  "copy_plane img_chan w h = map_err (\<lambda>y. map_err (\<lambda>x. read_cell img_chan y x) [0..<w]) [0..<h]"

definition add_cell :: "real list list \<Rightarrow> nat \<Rightarrow> nat \<Rightarrow> real \<Rightarrow> real list list" where
  "add_cell arr y x v = arr[y := (arr ! y)[x := arr ! y ! x + v]]"

definition set_cell :: "int list list \<Rightarrow> nat \<Rightarrow> nat \<Rightarrow> int \<Rightarrow> int list list" where
  "set_cell out y x v = out[y := (out ! y)[x := v]]"

text \<open>The body of the inner loop, on the state \<open>(arr, out)\<close>.\<close>

definition fs_cell ::
  "nat \<Rightarrow> nat \<Rightarrow> nat \<Rightarrow> nat \<Rightarrow> real list list \<times> int list list \<Rightarrow> real list list \<times> int list list" where
  "fs_cell w h y x s = (case s of (arr, out) \<Rightarrow>
     let old = arr ! y ! x;
         new = (if 1 / 2 \<le> old then 1 else 0);
         out = set_cell out y x new;
         err = old - real_of_int new;
         arr = (if x + 1 < w then add_cell arr y (x + 1) (err * 7 / 16) else arr);
         arr = (if y + 1 < h \<and> 0 < x then add_cell arr (y + 1) (x - 1) (err * 3 / 16) else arr);
         arr = (if y + 1 < h then add_cell arr (y + 1) x (err * 5 / 16) else arr);
         arr = (if y + 1 < h \<and> x + 1 < w then add_cell arr (y + 1) (x + 1) (err * 1 / 16) else arr)
     in (arr, out))"

definition fs_row ::
  "nat \<Rightarrow> nat \<Rightarrow> nat \<Rightarrow> real list list \<times> int list list \<Rightarrow> real list list \<times> int list list" where
  "fs_row w h y s = foldl (\<lambda>s x. fs_cell w h y x s) s [0..<w]"

definition fs_loop ::
  "nat \<Rightarrow> nat \<Rightarrow> real list list \<times> int list list \<Rightarrow> real list list \<times> int list list" where
  "fs_loop w h s = foldl (\<lambda>s y. fs_row w h y s) s [0..<h]"

definition floyd_steinberg_dither_channel ::
  "real list list \<Rightarrow> nat \<Rightarrow> nat \<Rightarrow> py_error + int list list" where
  "floyd_steinberg_dither_channel img_chan w h =
     (case copy_plane img_chan w h of
        Inl e \<Rightarrow> Inl e
      | Inr arr \<Rightarrow> Inr (snd (fs_loop w h (arr, replicate h (replicate w 0)))))"

subsection \<open>\<^verbatim>\<open>main\<close>\<close>










subsection \<open>Error diffusion on a store\<close>

text \<open>
  Python lists are mutable objects, and a plane is a list of references to row objects. To
  state what \<^verbatim>\<open>floyd_steinberg_dither_channel\<close> does to the plane it is given, the
  function is modelled a second time on an explicit store: a list of objects, the address of
  an object being its index, and allocation appending a new object. A row object holds
  numbers (Python ints and floats, as reals); a plane object holds the addresses of its rows.
\<close>

type_synonym addr = nat

datatype obj = Row "real list" | Plane "addr list"

type_synonym store = "obj list"

definition lookup :: "store \<Rightarrow> addr \<Rightarrow> obj option" where
  "lookup S a = (if a < length S then Some (S ! a) else None)"

definition alloc :: "store \<Rightarrow> obj \<Rightarrow> store \<times> addr" where
  "alloc S ob = (S @ [ob], length S)"

text \<open>
  \<open>img_chan[y][x]\<close> on the store: \<open>IndexError\<close> for an index out of range, \<open>TypeError\<close>
  when the object found is not of the expected kind.
\<close>

definition load_cell :: "store \<Rightarrow> addr \<Rightarrow> nat \<Rightarrow> nat \<Rightarrow> py_error + real" where
  "load_cell S p y x =
     (case lookup S p of
        Some (Plane rows) \<Rightarrow>
          if y < length rows
          then (case lookup S (rows ! y) of
                  Some (Row r) \<Rightarrow> if x < length r then Inr (r ! x) else Inl IndexError
                | _ \<Rightarrow> Inl TypeError)
          else Inl IndexError
      | _ \<Rightarrow> Inl TypeError)"

text \<open>
  A list comprehension that builds a list of lists allocates one new row object per inner
  list and then the outer list: \<open>new_plane S rows\<close>.
\<close>

fun alloc_rows :: "store \<Rightarrow> real list list \<Rightarrow> store \<times> addr list" where
  "alloc_rows S [] = (S, [])"
| "alloc_rows S (r # rs) =
     (case alloc S (Row r) of (S1, a) \<Rightarrow>
        case alloc_rows S1 rs of (S2, as) \<Rightarrow> (S2, a # as))"

definition new_plane :: "store \<Rightarrow> real list list \<Rightarrow> store \<times> addr" where
  "new_plane S rows = (case alloc_rows S rows of (S1, as) \<Rightarrow> alloc S1 (Plane as))"

text \<open>
  Reading and assigning \<open>p[y][x]\<close> for the planes \<open>arr\<close> and \<open>out\<close>, which the function has
  built itself with \<open>h\<close> rows of \<open>w\<close> entries: every index the loop uses is in range.
\<close>

definition get_cell :: "store \<Rightarrow> addr \<Rightarrow> nat \<Rightarrow> nat \<Rightarrow> real" where
  "get_cell S p y x =
     (case S ! p of
        Plane rows \<Rightarrow> (case S ! (rows ! y) of Row r \<Rightarrow> r ! x | _ \<Rightarrow> 0)
      | _ \<Rightarrow> 0)"

definition put_cell :: "store \<Rightarrow> addr \<Rightarrow> nat \<Rightarrow> nat \<Rightarrow> real \<Rightarrow> store" where
  "put_cell S p y x v =
     (case S ! p of
        Plane rows \<Rightarrow> (case S ! (rows ! y) of Row r \<Rightarrow> S[rows ! y := Row (r[x := v])] | _ \<Rightarrow> S)
      | _ \<Rightarrow> S)"

definition fs_cell_store :: "nat \<Rightarrow> nat \<Rightarrow> addr \<Rightarrow> addr \<Rightarrow> nat \<Rightarrow> nat \<Rightarrow> store \<Rightarrow> store" where
  "fs_cell_store w h arr out y x S =
     (let old = get_cell S arr y x;
          new = (if 1 / 2 \<le> old then 1 else 0);
          S = put_cell S out y x new;
          err = old - new;
          S = (if x + 1 < w
               then put_cell S arr y (x + 1) (get_cell S arr y (x + 1) + err * 7 / 16) else S);
          S = (if y + 1 < h \<and> 0 < x
               then put_cell S arr (y + 1) (x - 1) (get_cell S arr (y + 1) (x - 1) + err * 3 / 16)
               else S);
          S = (if y + 1 < h
               then put_cell S arr (y + 1) x (get_cell S arr (y + 1) x + err * 5 / 16) else S);
          S = (if y + 1 < h \<and> x + 1 < w
               then put_cell S arr (y + 1) (x + 1) (get_cell S arr (y + 1) (x + 1) + err * 1 / 16)
               else S)
      in S)"

definition fs_row_store :: "nat \<Rightarrow> nat \<Rightarrow> addr \<Rightarrow> addr \<Rightarrow> nat \<Rightarrow> store \<Rightarrow> store" where
  "fs_row_store w h arr out y S = foldl (\<lambda>S x. fs_cell_store w h arr out y x S) S [0..<w]"

definition fs_loop_store :: "nat \<Rightarrow> nat \<Rightarrow> addr \<Rightarrow> addr \<Rightarrow> store \<Rightarrow> store" where
  "fs_loop_store w h arr out S = foldl (\<lambda>S y. fs_row_store w h arr out y S) S [0..<h]"

text \<open>The function: it returns the new store and the address of \<open>out\<close>.\<close>

definition floyd_steinberg_store ::
  "store \<Rightarrow> addr \<Rightarrow> nat \<Rightarrow> nat \<Rightarrow> py_error + (store \<times> addr)" where
  "floyd_steinberg_store S img_chan w h =
     (case map_err (\<lambda>y. map_err (\<lambda>x. load_cell S img_chan y x) [0..<w]) [0..<h] of
        Inl e \<Rightarrow> Inl e
      | Inr rows \<Rightarrow>
          (case new_plane S rows of (S1, arr) \<Rightarrow>
             case new_plane S1 (replicate h (replicate w 0)) of (S2, out) \<Rightarrow>
               Inr (fs_loop_store w h arr out S2, out)))"

section \<open>Specification-side definitions\<close>

text \<open>
  Predicates and reference functions that state the properties, written from the
  specification and not from the code, and the invariants and relations of the proofs.
  None of them is part of the program.
\<close>

text \<open>
  \<open>chosen_first_in tbl p c\<close>: colour \<open>c\<close> is an entry of the table \<open>tbl\<close> whose squared
  distance to \<open>p\<close> is minimal in the table, and no earlier entry of the table is as near.
\<close>

definition chosen_first_in :: "(string \<times> rgb) list \<Rightarrow> rgb \<Rightarrow> string \<Rightarrow> bool" where
  "chosen_first_in tbl p c \<longleftrightarrow>
     (\<exists>i<length tbl. fst (tbl ! i) = c \<and>
        (\<forall>j<length tbl. dist2 p (snd (tbl ! i)) \<le> dist2 p (snd (tbl ! j))) \<and>
        (\<forall>j<i. dist2 p (snd (tbl ! i)) < dist2 p (snd (tbl ! j))))"

text \<open>The reference colours listed in a given colour order.\<close>

definition reference_colors :: "string list \<Rightarrow> (string \<times> rgb) list" where
  "reference_colors order = map (\<lambda>c. (c, the (map_of PALETTE_RGB c))) order"

text \<open>
  Scanning an instruction stream with the vertical position as running state: \<open>None\<close>
  until the first line with a Z word, then the last Z commanded. \<open>safe_scan P z ls\<close> holds
  when every line with an X or Y word is met at a known height \<open>v\<close> with \<open>P v\<close>.
\<close>

definition is_xy :: "gline \<Rightarrow> bool" where
  "is_xy l = (case l of Gmove n X Y Z F \<Rightarrow> X \<noteq> None \<or> Y \<noteq> None | _ \<Rightarrow> False)"

definition has_z :: "gline \<Rightarrow> bool" where
  "has_z l = (case l of Gmove n X Y Z F \<Rightarrow> Z \<noteq> None | _ \<Rightarrow> False)"

definition next_z :: "real option \<Rightarrow> gline \<Rightarrow> real option" where
  "next_z z l = (case l of Gmove n X Y (Some v) F \<Rightarrow> Some v | _ \<Rightarrow> z)"

definition height_ok :: "(real \<Rightarrow> bool) \<Rightarrow> real option \<Rightarrow> bool" where
  "height_ok P z = (case z of None \<Rightarrow> False | Some v \<Rightarrow> P v)"

fun safe_scan :: "(real \<Rightarrow> bool) \<Rightarrow> real option \<Rightarrow> gline list \<Rightarrow> bool" where
  "safe_scan P z [] = True"
| "safe_scan P z (l # ls) =
     ((if is_xy l then height_ok P z else True) \<and> safe_scan P (next_z z l) ls)"

definition final_z :: "real option \<Rightarrow> gline list \<Rightarrow> real option" where
  "final_z z ls = foldl next_z z ls"

text \<open>A line is unmixed when it does not carry both an X or Y word and a Z word.\<close>

definition unmixed :: "gline \<Rightarrow> bool" where
  "unmixed l \<longleftrightarrow> \<not> (is_xy l \<and> has_z l)"

text \<open>The comment lines that name a colour: its header, pickup, dip and return remarks.\<close>

definition names_color :: "string \<Rightarrow> gline \<Rightarrow> bool" where
  "names_color c l =
     (case l of
        Remark r \<Rightarrow>
          (case r of
             ColorHeader c' k \<Rightarrow> c' = c
           | Pickup c' \<Rightarrow> c' = c
           | Return c' \<Rightarrow> c' = c
           | Dip c' \<Rightarrow> c' = c
           | _ \<Rightarrow> False)
      | _ \<Rightarrow> False)"







text \<open>
  The error-diffusion pass in the words of the specification, on functions from cells to
  values. A cell is a pair (column, row) of integers, so that the left neighbour of column 0
  is a cell outside the grid.
  \<^item> The cells are processed in row-major order (\<open>reference_cells\<close>).
  \<^item> The current value of the cell is thresholded at \<open>1/2\<close> (\<open>threshold\<close>); the
    quantization error is the current value minus the binary output.
  \<^item> The error is distributed to the right neighbour with weight \<open>7/16\<close>, to the next
    row's left, same and right column with weights \<open>3/16\<close>, \<open>5/16\<close> and \<open>1/16\<close>
    (\<open>diffusion_targets\<close>), skipping the neighbours outside the grid (\<open>in_grid\<close>).
\<close>

type_synonym cell = "int \<times> int"

definition in_grid :: "nat \<Rightarrow> nat \<Rightarrow> cell \<Rightarrow> bool" where
  "in_grid w h c \<longleftrightarrow> 0 \<le> fst c \<and> fst c < int w \<and> 0 \<le> snd c \<and> snd c < int h"

definition diffusion_targets :: "cell \<Rightarrow> (cell \<times> real) list" where
  "diffusion_targets c = (case c of (x, y) \<Rightarrow>
     [((x + 1, y), 7 / 16), ((x - 1, y + 1), 3 / 16), ((x, y + 1), 5 / 16),
      ((x + 1, y + 1), 1 / 16)])"

definition threshold :: "real \<Rightarrow> int" where
  "threshold v = (if 1 / 2 \<le> v then 1 else 0)"

definition reference_step ::
  "nat \<Rightarrow> nat \<Rightarrow> (cell \<Rightarrow> real) \<times> (cell \<Rightarrow> int) \<Rightarrow> cell \<Rightarrow> (cell \<Rightarrow> real) \<times> (cell \<Rightarrow> int)" where
  "reference_step w h s c = (case s of (val, bin) \<Rightarrow>
     let b = threshold (val c);
         err = val c - real_of_int b
     in (foldl (\<lambda>val (t, k). val(t := val t + err * k)) val
           (filter (\<lambda>(t, k). in_grid w h t) (diffusion_targets c)),
         bin(c := b)))"

definition reference_cells :: "nat \<Rightarrow> nat \<Rightarrow> cell list" where
  "reference_cells w h = concat (map (\<lambda>y. map (\<lambda>x. (int x, int y)) [0..<w]) [0..<h])"

definition reference_diffusion :: "nat \<Rightarrow> nat \<Rightarrow> (cell \<Rightarrow> real) \<Rightarrow> (cell \<Rightarrow> real) \<times> (cell \<Rightarrow> int)" where
  "reference_diffusion w h val = foldl (reference_step w h) (val, \<lambda>c. 0) (reference_cells w h)"

text \<open>A plane of lists as a function on cells, and a function on cells as a plane of lists.\<close>

definition plane_fun :: "'a list list \<Rightarrow> cell \<Rightarrow> 'a" where
  "plane_fun p c = p ! nat (snd c) ! nat (fst c)"

definition tabulate :: "nat \<Rightarrow> nat \<Rightarrow> (cell \<Rightarrow> 'a) \<Rightarrow> 'a list list" where
  "tabulate w h f = map (\<lambda>y. map (\<lambda>x. f (int x, int y)) [0..<w]) [0..<h]"

text \<open>
  \<open>diffused w h c t\<close>: the weight with which the error of cell \<open>c\<close> reaches cell \<open>t\<close>
  (0 when \<open>t\<close> is no neighbour of \<open>c\<close> inside the grid).
\<close>

definition diffused :: "nat \<Rightarrow> nat \<Rightarrow> cell \<Rightarrow> cell \<Rightarrow> real" where
  "diffused w h c t =
     sum_list (map snd (filter (\<lambda>(t', k). t' = t \<and> in_grid w h t') (diffusion_targets c)))"

text \<open>
  \<open>shaped w h p\<close>: the plane \<open>p\<close> has \<open>h\<close> rows of \<open>w\<close> entries. \<open>refines w h s t\<close>: the
  state \<open>s = (arr, out)\<close> of the loop on lists and the state \<open>t\<close> of the reference pass on
  functions hold the same values at every cell of the grid.
\<close>

definition shaped :: "nat \<Rightarrow> nat \<Rightarrow> 'a list list \<Rightarrow> bool" where
  "shaped w h p \<longleftrightarrow> length p = h \<and> (\<forall>y<h. length (p ! y) = w)"

definition refines ::
  "nat \<Rightarrow> nat \<Rightarrow> real list list \<times> int list list \<Rightarrow> (cell \<Rightarrow> real) \<times> (cell \<Rightarrow> int) \<Rightarrow> bool" where
  "refines w h s t \<longleftrightarrow>
     shaped w h (fst s) \<and> shaped w h (snd s) \<and>
     (\<forall>x<w. \<forall>y<h. fst s ! y ! x = fst t (int x, int y) \<and> snd s ! y ! x = snd t (int x, int y))"

text \<open>
  \<open>kept w h c\<close>: the part of the error of cell \<open>c\<close> that stays in the grid, the sum of the
  weights of its neighbours inside the grid; the rest, \<open>1 - kept w h c\<close>, is lost at the
  edge. \<open>before p c\<close>: cell \<open>p\<close> comes before cell \<open>c\<close> in row-major order.
\<close>

definition kept :: "nat \<Rightarrow> nat \<Rightarrow> cell \<Rightarrow> real" where
  "kept w h c = sum_list (map snd (filter (\<lambda>(t, k). in_grid w h t) (diffusion_targets c)))"

definition before :: "cell \<Rightarrow> cell \<Rightarrow> bool" where
  "before p c \<longleftrightarrow> snd p < snd c \<or> (snd p = snd c \<and> fst p < fst c)"

text \<open>
  The invariant of the reference pass after the cells \<open>ps\<close>, started on the values \<open>v0\<close>:
  every cell not yet processed differs from its start value by at most half the weight it
  has received, and the sum of the current values of the unprocessed cells and the outputs
  of the processed cells differs from the sum of the start values by at most half the
  weight lost so far.
\<close>

definition diffusion_inv ::
  "nat \<Rightarrow> nat \<Rightarrow> (cell \<Rightarrow> real) \<Rightarrow> cell list \<Rightarrow> (cell \<Rightarrow> real) \<times> (cell \<Rightarrow> int) \<Rightarrow> bool" where
  "diffusion_inv w h v0 ps t \<longleftrightarrow>
     (\<forall>c. c \<notin> set ps \<longrightarrow> \<bar>fst t c - v0 c\<bar> \<le> (\<Sum>s\<in>set ps. diffused w h s c) / 2) \<and>
     \<bar>(\<Sum>c\<in>{c. in_grid w h c} - set ps. fst t c) + (\<Sum>c\<in>set ps. real_of_int (snd t c)) -
       (\<Sum>c\<in>{c. in_grid w h c}. v0 c)\<bar> \<le> (\<Sum>s\<in>set ps. 1 - kept w h s) / 2"

text \<open>
  \<open>holds_plane S p vals\<close>: in the store \<open>S\<close> the address \<open>p\<close> is a plane object whose rows
  are row objects holding the values \<open>vals\<close>, row by row (rows may share an object).
\<close>

definition holds_plane :: "store \<Rightarrow> addr \<Rightarrow> real list list \<Rightarrow> bool" where
  "holds_plane S p vals \<longleftrightarrow>
     p < length S \<and>
     (\<exists>rows. S ! p = Plane rows \<and> length rows = length vals \<and>
        (\<forall>y<length rows. rows ! y < length S \<and> S ! (rows ! y) = Row (vals ! y)))"

text \<open>\<open>fresh_plane n S p\<close>: the plane object \<open>p\<close> and all its rows have addresses from \<open>n\<close> on.\<close>

definition fresh_plane :: "nat \<Rightarrow> store \<Rightarrow> addr \<Rightarrow> bool" where
  "fresh_plane n S p \<longleftrightarrow>
     n \<le> p \<and> p < length S \<and> (\<exists>rows. S ! p = Plane rows \<and> (\<forall>a\<in>set rows. n \<le> a \<and> a < length S))"

text \<open>
  The relation between a store in the loop and the state \<open>(arr, out)\<close> of the loop on list
  values: the planes at \<open>arr\<close> and \<open>out\<close> have \<open>h\<close> rows each, all \<open>2 h\<close> row objects are
  different objects with addresses from \<open>n\<close> on, and they hold the values of the state.
\<close>

definition store_rel ::
  "nat \<Rightarrow> nat \<Rightarrow> nat \<Rightarrow> addr \<Rightarrow> addr \<Rightarrow> store \<Rightarrow> real list list \<times> int list list \<Rightarrow> bool" where
  "store_rel w h n arr out S s \<longleftrightarrow>
     shaped w h (fst s) \<and> shaped w h (snd s) \<and>
     n \<le> arr \<and> arr < length S \<and> n \<le> out \<and> out < length S \<and>
     (\<exists>ras oas.
        S ! arr = Plane ras \<and> S ! out = Plane oas \<and> length ras = h \<and> length oas = h \<and>
        distinct (ras @ oas) \<and>
        (\<forall>a\<in>set (ras @ oas). n \<le> a \<and> a < length S \<and> a \<noteq> arr \<and> a \<noteq> out) \<and>
        (\<forall>y<h. S ! (ras ! y) = Row (fst s ! y) \<and>
                S ! (oas ! y) = Row (map real_of_int (snd s ! y))))"


section \<open>Properties\<close>

subsection \<open>Serpentine traversal visits every cell once\<close>

lemma serpentine_Suc:
  "serpentine_indices w (Suc h) = serpentine_indices w h @ serpentine_row w h"
  by (simp add: serpentine_indices_def)

lemma length_serpentine_row: "length (serpentine_row w j) = w"
  by (simp add: serpentine_row_def Let_def)

lemma length_serpentine: "length (serpentine_indices w h) = w * h"
  by (induction h) (simp_all add: serpentine_Suc length_serpentine_row, simp add: serpentine_indices_def)

lemma serpentine_row_nth:
  "i < w \<Longrightarrow> serpentine_row w j ! i = (if even j then i else w - 1 - i, j)"
  by (auto simp: serpentine_row_def Let_def rev_nth even_iff_mod_2_eq_zero)

lemma serpentine_nth:
  "k < w * h \<Longrightarrow>
   serpentine_indices w h ! k = (if even (k div w) then k mod w else w - 1 - k mod w, k div w)"
proof (induction h)
  case 0
  then show ?case by simp
next
  case (Suc h)
  show ?case
  proof (cases "k < w * h")
    case True
    with Suc.IH show ?thesis
      by (simp add: serpentine_Suc nth_append length_serpentine)
  next
    case False
    from Suc.prems have wpos: "0 < w" by (cases w) simp_all
    define i where "i = k - w * h"
    from False Suc.prems have i: "i < w" and k: "k = i + h * w"
      by (simp_all add: i_def mult.commute)
    from i wpos have "k div w = h" "k mod w = i"
      by (simp_all add: k)
    with False i show ?thesis
      by (simp add: serpentine_Suc nth_append length_serpentine serpentine_row_nth i_def)
  qed
qed

lemma set_serpentine_row: "set (serpentine_row w j) = {0..<w} \<times> {j}"
  by (auto simp: serpentine_row_def Let_def)

lemma set_serpentine: "set (serpentine_indices w h) = {0..<w} \<times> {0..<h}"
  by (auto simp: serpentine_indices_def set_serpentine_row)

lemma distinct_serpentine_row: "distinct (serpentine_row w j)"
  by (simp add: serpentine_row_def Let_def distinct_map inj_on_def)

lemma distinct_serpentine: "distinct (serpentine_indices w h)"
proof (induction h)
  case 0
  show ?case by (simp add: serpentine_indices_def)
next
  case (Suc h)
  have "set (serpentine_indices w h) \<inter> set (serpentine_row w h) = {}"
    by (auto simp: set_serpentine set_serpentine_row)
  with Suc show ?case
    by (simp add: serpentine_Suc distinct_serpentine_row)
qed

text \<open>
  Claim C9. For every grid width \<open>w\<close> and height \<open>h\<close> the serpentine order holds every
  cell of the grid exactly once (it has \<open>w * h\<close> entries, all different, and they are the
  cells with column below \<open>w\<close> and row below \<open>h\<close>); the entry at position \<open>k\<close> lies in
  row \<open>k div w\<close>, so rows come in increasing order, and its column is \<open>k mod w\<close> in an
  even row (ascending) and \<open>w - 1 - k mod w\<close> in an odd row (descending).
\<close>

theorem serpentine_visits_each_cell_once:
  "length (serpentine_indices w h) = w * h \<and>
   distinct (serpentine_indices w h) \<and>
   set (serpentine_indices w h) = {0..<w} \<times> {0..<h} \<and>
   (\<forall>k. k < w * h \<longrightarrow>
      serpentine_indices w h ! k =
        (if even (k div w) then k mod w else w - 1 - k mod w, k div w))"
  by (simp add: length_serpentine distinct_serpentine set_serpentine serpentine_nth)

theorem serpentine_visits_each_cell_once_witness:
  "length (serpentine_indices 3 2) = 6 \<and>
   serpentine_indices 3 2 = [(0, 0), (1, 0), (2, 0), (2, 1), (1, 1), (0, 1)] \<and>
   serpentine_indices 3 2 ! 4 = (1, 1)"
proof -
  have e: "serpentine_indices 3 2 = [(0, 0), (1, 0), (2, 0), (2, 1), (1, 1), (0, 1)]"
    by code_simp
  have "(4::nat) < 3 * 2" by simp
  with serpentine_visits_each_cell_once [of 3 2] have "serpentine_indices 3 2 ! 4 = (1, 1)"
    by simp
  with serpentine_visits_each_cell_once [of 3 2] e show ?thesis
    by simp
qed

subsection \<open>Nearest-colour classification\<close>

lemma nearest_loop_spec:
  "nearest_loop p tbl (best, bd) = (best', bd') \<Longrightarrow>
     ((\<forall>j<length tbl. bd \<le> dist2 p (snd (tbl ! j))) \<and> best' = best \<and> bd' = bd) \<or>
     (\<exists>i<length tbl. best' = Some (fst (tbl ! i)) \<and> bd' = dist2 p (snd (tbl ! i)) \<and> bd' < bd \<and>
        (\<forall>j<length tbl. bd' \<le> dist2 p (snd (tbl ! j))) \<and>
        (\<forall>j<i. bd' < dist2 p (snd (tbl ! j))))"
proof (induction tbl arbitrary: best bd)
  case Nil
  then show ?case by simp
next
  case (Cons e rest)
  obtain name q where e: "e = (name, q)" by (cases e)
  show ?case
  proof (cases "dist2 p q < bd")
    case True
    with Cons.prems e have "nearest_loop p rest (Some name, dist2 p q) = (best', bd')"
      by simp
    from Cons.IH [OF this] show ?thesis
    proof
      assume a: "(\<forall>j<length rest. dist2 p q \<le> dist2 p (snd (rest ! j))) \<and> best' = Some name \<and> bd' = dist2 p q"
      have "\<forall>j<length (e # rest). bd' \<le> dist2 p (snd ((e # rest) ! j))"
        using a e by (auto simp: nth_Cons split: nat.splits)
      with a e True show ?thesis
        by (intro disjI2 exI [of _ 0]) simp
    next
      assume "\<exists>i<length rest. best' = Some (fst (rest ! i)) \<and> bd' = dist2 p (snd (rest ! i)) \<and> bd' < dist2 p q \<and>
        (\<forall>j<length rest. bd' \<le> dist2 p (snd (rest ! j))) \<and> (\<forall>j<i. bd' < dist2 p (snd (rest ! j)))"
      then obtain i where i: "i < length rest" "best' = Some (fst (rest ! i))"
        "bd' = dist2 p (snd (rest ! i))" "bd' < dist2 p q"
        "\<forall>j<length rest. bd' \<le> dist2 p (snd (rest ! j))" "\<forall>j<i. bd' < dist2 p (snd (rest ! j))"
        by blast
      have "\<forall>j<length (e # rest). bd' \<le> dist2 p (snd ((e # rest) ! j))"
        using i e by (auto simp: nth_Cons split: nat.splits)
      moreover have "\<forall>j<Suc i. bd' < dist2 p (snd ((e # rest) ! j))"
        using i e by (auto simp: nth_Cons split: nat.splits)
      ultimately show ?thesis
        using i True by (intro disjI2 exI [of _ "Suc i"]) simp
    qed
  next
    case False
    with Cons.prems e have "nearest_loop p rest (best, bd) = (best', bd')"
      by simp
    from Cons.IH [OF this] show ?thesis
    proof
      assume a: "(\<forall>j<length rest. bd \<le> dist2 p (snd (rest ! j))) \<and> best' = best \<and> bd' = bd"
      have "\<forall>j<length (e # rest). bd \<le> dist2 p (snd ((e # rest) ! j))"
        using a e False by (auto simp: nth_Cons split: nat.splits)
      with a show ?thesis by blast
    next
      assume "\<exists>i<length rest. best' = Some (fst (rest ! i)) \<and> bd' = dist2 p (snd (rest ! i)) \<and> bd' < bd \<and>
        (\<forall>j<length rest. bd' \<le> dist2 p (snd (rest ! j))) \<and> (\<forall>j<i. bd' < dist2 p (snd (rest ! j)))"
      then obtain i where i: "i < length rest" "best' = Some (fst (rest ! i))"
        "bd' = dist2 p (snd (rest ! i))" "bd' < bd"
        "\<forall>j<length rest. bd' \<le> dist2 p (snd (rest ! j))" "\<forall>j<i. bd' < dist2 p (snd (rest ! j))"
        by blast
      have "\<forall>j<length (e # rest). bd' \<le> dist2 p (snd ((e # rest) ! j))"
        using i e False by (auto simp: nth_Cons split: nat.splits)
      moreover have "\<forall>j<Suc i. bd' < dist2 p (snd ((e # rest) ! j))"
        using i e False by (auto simp: nth_Cons split: nat.splits)
      ultimately show ?thesis
        using i by (intro disjI2 exI [of _ "Suc i"]) simp
    qed
  qed
qed

lemma dist2_black_small:
  assumes "0 \<le> r" "r \<le> 255" "0 \<le> g" "g \<le> 255" "0 \<le> b" "b \<le> 255"
  shows "dist2 (r, g, b) (0, 0, 0) < 10 ^ 18"
proof -
  have "r\<^sup>2 \<le> 255\<^sup>2" "g\<^sup>2 \<le> 255\<^sup>2" "b\<^sup>2 \<le> 255\<^sup>2"
    using assms power_mono [of r 255 2] power_mono [of g 255 2] power_mono [of b 255 2]
    by simp_all
  then show ?thesis by (simp add: dist2_def)
qed

lemma nearest_in_range:
  assumes "0 \<le> r" "r \<le> 255" "0 \<le> g" "g \<le> 255" "0 \<le> b" "b \<le> 255"
  shows "\<exists>c. nearest_palette_color (r, g, b) = Some c \<and> chosen_first_in PALETTE_RGB (r, g, b) c"
proof -
  obtain best' bd' where n: "nearest_loop (r, g, b) PALETTE_RGB (None, 10 ^ 18) = (best', bd')"
    by (cases "nearest_loop (r, g, b) PALETTE_RGB (None, 10 ^ 18)")
  have blk: "PALETTE_RGB ! 4 = (''black'', (0, 0, 0))" "4 < length PALETTE_RGB"
    by (simp_all add: PALETTE_RGB_def)
  from nearest_loop_spec [OF n] show ?thesis
  proof
    assume "(\<forall>j<length PALETTE_RGB. 10 ^ 18 \<le> dist2 (r, g, b) (snd (PALETTE_RGB ! j))) \<and> best' = None \<and> bd' = 10 ^ 18"
    then have "10 ^ 18 \<le> dist2 (r, g, b) (snd (PALETTE_RGB ! 4))"
      using blk(2) by blast
    with dist2_black_small [OF assms] blk show ?thesis by simp
  next
    assume "\<exists>i<length PALETTE_RGB. best' = Some (fst (PALETTE_RGB ! i)) \<and> bd' = dist2 (r, g, b) (snd (PALETTE_RGB ! i)) \<and>
       bd' < 10 ^ 18 \<and> (\<forall>j<length PALETTE_RGB. bd' \<le> dist2 (r, g, b) (snd (PALETTE_RGB ! j))) \<and>
       (\<forall>j<i. bd' < dist2 (r, g, b) (snd (PALETTE_RGB ! j)))"
    then show ?thesis
      using n by (auto simp: nearest_palette_color_def chosen_first_in_def)
  qed
qed

lemma nearest_tie: "nearest_palette_color (110, 10, 30) = Some ''red''"
  by (simp add: nearest_palette_color_def PALETTE_RGB_def dist2_def)

text \<open>
  Claim C2, as amended. In rgb6 mode every RGB triple with channels in \<open>0..255\<close> that is
  not skipped as background (not all three channels at or above the threshold) is assigned
  exactly one colour; its squared distance to the triple is minimal among the six
  reference colours, and among the colours at that minimal distance it is the first in the
  order of the reference-colour table \<open>PALETTE_RGB\<close> (red, green, blue, yellow, black,
  white), which is the order the loop iterates in.
\<close>

theorem classify_nearest_first_in_table:
  assumes "0 \<le> r" "r \<le> 255" "0 \<le> g" "g \<le> 255" "0 \<le> b" "b \<le> 255"
    and "\<not> (WHITE_THRESHOLD \<le> r \<and> WHITE_THRESHOLD \<le> g \<and> WHITE_THRESHOLD \<le> b)"
  shows "\<exists>c. classify_pixel (r, g, b) = Assigned (Some c) \<and>
             chosen_first_in PALETTE_RGB (r, g, b) c"
  using nearest_in_range [OF assms(1-6)] assms(7) by (auto simp: classify_pixel_def)

theorem classify_nearest_first_in_table_witness:
  "classify_pixel (200, 30, 50) = Assigned (Some ''red'') \<and>
   chosen_first_in PALETTE_RGB (200, 30, 50) ''red''"
proof -
  have "\<not> (WHITE_THRESHOLD \<le> (200::int) \<and> WHITE_THRESHOLD \<le> (30::int) \<and> WHITE_THRESHOLD \<le> (50::int))"
    by (simp add: WHITE_THRESHOLD_def)
  from classify_nearest_first_in_table [OF _ _ _ _ _ _ this]
  obtain c where c: "classify_pixel (200, 30, 50) = Assigned (Some c)"
    "chosen_first_in PALETTE_RGB (200, 30, 50) c"
    by auto
  have "classify_pixel (200, 30, 50) = Assigned (Some ''red'')"
    by (simp add: classify_pixel_def nearest_palette_color_def PALETTE_RGB_def dist2_def
        WHITE_THRESHOLD_def)
  with c show ?thesis by simp
qed

text \<open>
  The claim as stated, with ties going to the colour earliest in the palette order (black,
  blue, red, green, yellow, white), fails at the triple \<open>(110, 10, 30)\<close>: black and red
  are both at squared distance 13100, the minimum, and the code answers red.
\<close>

theorem classify_tie_not_palette_order: "classify_pixel (110, 10, 30) = Assigned (Some ''red'') \<and>
   \<not> chosen_first_in (reference_colors COLOR_ORDER_RGB6) (110, 10, 30) ''red''"
proof -
  let ?t = "reference_colors COLOR_ORDER_RGB6"
  have r: "?t = [(''black'', (0,0,0)), (''blue'', (30,144,255)), (''red'', (220,20,60)), (''green'', (34,139,34)), (''yellow'',(255,215,0)), (''white'',(255,255,255))]"
    by (simp add: reference_colors_def COLOR_ORDER_RGB6_def PALETTE_RGB_def)
  have len: "length ?t = 6" by (simp add: r)
  have names: "fst (?t ! 0) \<noteq> ''red''" "fst (?t ! 1) \<noteq> ''red''" "fst (?t ! 3) \<noteq> ''red''"
    "fst (?t ! 4) \<noteq> ''red''" "fst (?t ! 5) \<noteq> ''red''"
    by (simp_all add: r)
  have tie: "\<not> dist2 (110, 10, 30) (snd (?t ! 2)) < dist2 (110, 10, 30) (snd (?t ! 0))"
    by (simp add: r dist2_def)
  have "\<not> chosen_first_in ?t (110, 10, 30) ''red''"
  proof
    assume "chosen_first_in ?t (110, 10, 30) ''red''"
    then obtain i where i: "i < 6" "fst (?t ! i) = ''red''"
      "\<forall>j<i. dist2 (110, 10, 30) (snd (?t ! i)) < dist2 (110, 10, 30) (snd (?t ! j))"
      unfolding chosen_first_in_def len by blast
    from i(1) have "i = 0 \<or> i = 1 \<or> i = 2 \<or> i = 3 \<or> i = 4 \<or> i = 5" by arith
    with i(2) names have "i = 2" by auto
    with i(3) have "dist2 (110, 10, 30) (snd (?t ! 2)) < dist2 (110, 10, 30) (snd (?t ! 0))"
      by simp
    with tie show False by simp
  qed
  then show ?thesis
    by (simp add: classify_pixel_def nearest_tie WHITE_THRESHOLD_def)
qed

subsection \<open>Subtractive conversion\<close>

lemma cmyk_fraction_bounds:
  fixes R K :: real
  assumes "0 \<le> R" "R \<le> 1 - K" "K < 1"
  shows "0 \<le> (1 - R - K) / (1 - K)" "(1 - R - K) / (1 - K) \<le> 1"
  using assms by simp_all

text \<open>
  Claim C6. For channels in \<open>0..255\<close> the conversion returns four fractions (it raises
  nothing, in particular no division by zero), all in \<open>[0, 1]\<close>, with
  \<open>K = 1 - max(R,G,B)/255\<close>; \<open>K\<close> is 1 exactly for pure black, and then the other three
  fractions are 0; otherwise \<open>C = (1-R-K)/(1-K)\<close>, \<open>M = (1-G-K)/(1-K)\<close> and
  \<open>Y = (1-B-K)/(1-K)\<close> on the normalised channels.
\<close>

theorem rgb_to_cmyk_fractions:
  assumes "0 \<le> r" "r \<le> 255" "0 \<le> g" "g \<le> 255" "0 \<le> b" "b \<le> 255"
  shows "\<exists>C M Y K. rgb_to_cmyk r g b = Inr (C, M, Y, K) \<and>
           K = 1 - real_of_int (max r (max g b)) / 255 \<and>
           0 \<le> C \<and> C \<le> 1 \<and> 0 \<le> M \<and> M \<le> 1 \<and> 0 \<le> Y \<and> Y \<le> 1 \<and> 0 \<le> K \<and> K \<le> 1 \<and>
           (K = 1 \<longleftrightarrow> r = 0 \<and> g = 0 \<and> b = 0) \<and>
           (K = 1 \<longrightarrow> C = 0 \<and> M = 0 \<and> Y = 0) \<and>
           (K \<noteq> 1 \<longrightarrow>
              C = (1 - real_of_int r / 255 - K) / (1 - K) \<and>
              M = (1 - real_of_int g / 255 - K) / (1 - K) \<and>
              Y = (1 - real_of_int b / 255 - K) / (1 - K))"
proof -
  define R G B where "R = real_of_int r / 255" and "G = real_of_int g / 255"
    and "B = real_of_int b / 255"
  define K where "K = 1 - max R (max G B)"
  have mx: "max R (max G B) = real_of_int (max r (max g b)) / 255"
    by (simp add: R_def G_def B_def max_def divide_le_cancel)
  have R: "0 \<le> R" "R \<le> 1 - K" and G: "0 \<le> G" "G \<le> 1 - K" and B: "0 \<le> B" "B \<le> 1 - K"
    using assms by (simp_all add: R_def G_def B_def K_def)
  have K01: "0 \<le> K" "K \<le> 1"
    using assms by (simp_all add: K_def R_def G_def B_def)
  have Keq: "K = 1 - real_of_int (max r (max g b)) / 255"
    by (simp add: K_def mx)
  have K1: "K = 1 \<longleftrightarrow> r = 0 \<and> g = 0 \<and> b = 0"
    using assms by (auto simp: Keq max_def)
  show ?thesis
  proof (cases "1 \<le> K")
    case True
    with K01 have "K = 1" by simp
    moreover from True have "rgb_to_cmyk r g b = Inr (0, 0, 0, 1)"
      by (simp add: rgb_to_cmyk_def Let_def R_def G_def B_def K_def)
    ultimately show ?thesis
      using K1 Keq by (intro exI [of _ 0] exI [of _ 1]) simp
  next
    case False
    then have lt: "K < 1" by simp
    then have nz: "1 - K \<noteq> 0" by simp
    let ?C = "(1 - R - K) / (1 - K)" and ?M = "(1 - G - K) / (1 - K)"
      and ?Y = "(1 - B - K) / (1 - K)"
    from False nz have "rgb_to_cmyk r g b = Inr (?C, ?M, ?Y, K)"
      unfolding rgb_to_cmyk_def Let_def R_def [symmetric] G_def [symmetric] B_def [symmetric]
        K_def [symmetric] py_truediv_def by simp
    moreover have "0 \<le> ?C \<and> ?C \<le> 1 \<and> 0 \<le> ?M \<and> ?M \<le> 1 \<and> 0 \<le> ?Y \<and> ?Y \<le> 1"
      using cmyk_fraction_bounds [OF R lt] cmyk_fraction_bounds [OF G lt]
        cmyk_fraction_bounds [OF B lt] by blast
    moreover have "K = 1 \<longrightarrow> ?C = 0 \<and> ?M = 0 \<and> ?Y = 0"
      using lt by simp
    moreover have "?C = (1 - real_of_int r / 255 - K) / (1 - K)"
      "?M = (1 - real_of_int g / 255 - K) / (1 - K)"
      "?Y = (1 - real_of_int b / 255 - K) / (1 - K)"
      by (simp_all only: R_def G_def B_def)
    ultimately show ?thesis
      using K01 K1 Keq by blast
  qed
qed

theorem rgb_to_cmyk_fractions_witness:
  "rgb_to_cmyk 0 0 0 = Inr (0, 0, 0, 1) \<and> rgb_to_cmyk 255 0 51 = Inr (0, 1, 4 / 5, 0)"
proof -
  have a: "(0::int) \<le> 0" "(0::int) \<le> 255" "(0::int) \<le> 51" "(51::int) \<le> 255" "(255::int) \<le> 255"
    by simp_all
  from rgb_to_cmyk_fractions [OF a(1) a(2) a(1) a(2) a(1) a(2)]
  have 1: "rgb_to_cmyk 0 0 0 = Inr (0, 0, 0, 1)"
    by auto
  from rgb_to_cmyk_fractions [OF a(2) a(5) a(1) a(2) a(3) a(4)]
  have 2: "rgb_to_cmyk 255 0 51 = Inr (0, 1, 4 / 5, 0)"
    by auto
  from 1 2 show ?thesis by simp
qed

subsection \<open>Safe height of horizontal moves\<close>

lemma safe_scan_append:
  "safe_scan P z (xs @ ys) \<longleftrightarrow> safe_scan P z xs \<and> safe_scan P (final_z z xs) ys"
  by (induction xs arbitrary: z) (auto simp: final_z_def)

lemma final_z_append: "final_z z (xs @ ys) = final_z (final_z z xs) ys"
  by (simp add: final_z_def)

lemma final_z_Cons: "final_z z (l # ls) = final_z (next_z z l) ls"
  by (simp add: final_z_def)

lemma final_z_Nil: "final_z z [] = z"
  by (simp add: final_z_def)

lemma station_visit_safe:
  assumes "height_ok P z" "P zs"
  shows "safe_scan P z (move_xy x y @ move_z zs @ move_z zd @ dwell t @ move_z zs)"
    and "final_z z (move_xy x y @ move_z zs @ move_z zd @ dwell t @ move_z zs) = Some zs"
  using assms
  by (simp_all add: move_xy_def move_z_def dwell_def is_xy_def next_z_def final_z_def)

lemma pickup_brush_safe:
  assumes "height_ok P z" "P (z_safe st)"
  shows "safe_scan P z (pickup_brush st c)" "final_z z (pickup_brush st c) = Some (z_safe st)"
  using station_visit_safe [OF assms, of "sx st" "sy st" "z_pick st" "3 / 10"]
  by (simp_all add: pickup_brush_def is_xy_def next_z_def final_z_Cons)

lemma return_brush_safe:
  assumes "height_ok P z" "P (z_safe st)"
  shows "safe_scan P z (return_brush st c)" "final_z z (return_brush st c) = Some (z_safe st)"
  using station_visit_safe [OF assms, of "sx st" "sy st" "z_pick st" "3 / 10"]
  by (simp_all add: return_brush_def is_xy_def next_z_def final_z_Cons)

lemma dip_brush_safe:
  assumes "height_ok P z" "P (z_safe st)"
  shows "safe_scan P z (dip_brush st c)" "final_z z (dip_brush st c) = Some (z_safe st)"
proof -
  define A where "A = move_xy (dip_x st) (dip_y st) @ move_z (z_safe st) @ move_z (dip_z st) @
     dwell (dip_dwell_s st) @ move_z (z_safe st)"
  define B where "B = move_xy (blot_x st) (blot_y st) @ move_z (z_safe st) @ move_z (blot_z st) @
     dwell (blot_dwell_s st) @ move_z (z_safe st)"
  have d: "dip_brush st c = Remark (Dip c) # (A @ B)"
    by (simp add: dip_brush_def A_def B_def)
  have a: "safe_scan P z A" "final_z z A = Some (z_safe st)"
    unfolding A_def using station_visit_safe [OF assms] by blast+
  have h: "height_ok P (Some (z_safe st))"
    using assms(2) by (simp add: height_ok_def)
  have b: "safe_scan P (Some (z_safe st)) B" "final_z (Some (z_safe st)) B = Some (z_safe st)"
    unfolding B_def using station_visit_safe [OF h assms(2)] by blast+
  have n: "next_z z (Remark (Dip c)) = z" "\<not> is_xy (Remark (Dip c))"
    by (simp_all add: next_z_def is_xy_def)
  show "safe_scan P z (dip_brush st c)"
    using a b n by (simp add: d safe_scan_append)
  show "final_z z (dip_brush st c) = Some (z_safe st)"
    using a b n by (simp add: d final_z_Cons final_z_append)
qed

lemma paint_dot_safe:
  assumes "height_ok P z"
  shows "safe_scan P z (paint_dot x y t)" "final_z z (paint_dot x y t) = Some Z_TRAVEL"
  using assms
  by (simp_all add: paint_dot_def move_xy_def move_z_def dwell_def is_xy_def next_z_def final_z_def)

lemma dab_loop_step:
  assumes "(px, py) \<in> set pts" "xy_of_pixel a px py = (x_mm, y_mm)"
    "travel = (case last_xy of None \<Rightarrow> travel_since
        | Some (lx, ly) \<Rightarrow> travel_since + hypot (x_mm - lx) (y_mm - ly))"
    "redip \<longleftrightarrow> n \<le> dots_since \<or> (0 < d \<and> d \<le> travel)"
  shows "dab_loop n d a st color pts (dots_since, travel_since, last_xy) ((px, py) # serp) =
        (if redip then dip_brush st color else []) @ paint_dot x_mm y_mm DAB_DWELL_S @
        dab_loop n d a st color pts
          ((if redip then 0 else dots_since) + 1, (if redip then 0 else travel), Some (x_mm, y_mm)) serp"
  unfolding assms(3,4) using assms(1,2) by (simp add: Let_def)

lemma dab_loop_safe:
  assumes "P (z_safe st)" "P Z_TRAVEL"
  shows "height_ok P z \<Longrightarrow>
    safe_scan P z (dab_loop n d a st c pts s serp) \<and>
    height_ok P (final_z z (dab_loop n d a st c pts s serp))"
proof (induction serp arbitrary: z s)
  case Nil
  then show ?case by (simp add: final_z_Nil)
next
  case (Cons cell serp)
  obtain px py where cell: "cell = (px, py)" by (cases cell)
  obtain dots_since travel_since last_xy where s: "s = (dots_since, travel_since, last_xy)"
    by (cases s)
  show ?case
  proof (cases "(px, py) \<in> set pts")
    case False
    with Cons show ?thesis by (simp add: cell s)
  next
    case True
    obtain x_mm y_mm where xy: "xy_of_pixel a px py = (x_mm, y_mm)"
      by (cases "xy_of_pixel a px py")
    define travel where "travel = (case last_xy of None \<Rightarrow> travel_since
        | Some (lx, ly) \<Rightarrow> travel_since + hypot (x_mm - lx) (y_mm - ly))"
    define redip where "redip \<longleftrightarrow> n \<le> dots_since \<or> (0 < d \<and> d \<le> travel)"
    define s' where "s' = ((if redip then 0 else dots_since) + 1, (if redip then 0 else travel),
              Some (x_mm, y_mm))"
    define pre where "pre = (if redip then dip_brush st c else [])"
    have eq: "dab_loop n d a st c pts s (cell # serp) =
        pre @ paint_dot x_mm y_mm DAB_DWELL_S @ dab_loop n d a st c pts s' serp"
      unfolding s'_def pre_def cell s by (rule dab_loop_step [OF True xy travel_def redip_def])
    have pre1: "safe_scan P z pre"
      using dip_brush_safe(1) [OF Cons.prems assms(1), of c] by (simp add: pre_def)
    have pre2: "height_ok P (final_z z pre)"
      using dip_brush_safe(2) [OF Cons.prems assms(1), of c] Cons.prems assms(1)
      by (cases redip) (simp_all add: final_z_Nil height_ok_def pre_def)
    have dot: "safe_scan P (final_z z pre) (paint_dot x_mm y_mm DAB_DWELL_S)"
      "final_z (final_z z pre) (paint_dot x_mm y_mm DAB_DWELL_S) = Some Z_TRAVEL"
      using paint_dot_safe [OF pre2] by blast+
    have h: "height_ok P (Some Z_TRAVEL)"
      using assms(2) by (simp add: height_ok_def)
    from Cons.IH [OF h, of s'] pre1 pre2 dot show ?thesis
      by (simp add: eq safe_scan_append final_z_append)
  qed
qed

lemma color_block_safe:
  assumes "P (z_safe st)" "P Z_TRAVEL" "height_ok P z"
  shows "safe_scan P z (color_block a serp st c pts)"
    and "final_z z (color_block a serp st c pts) = Some (z_safe st)"
proof -
  define L where "L = dab_loop RE_DIP_EVERY_N_DOTS RE_DIP_AFTER_TRAVEL_MM a st c pts (0, 0, None) serp"
  define E where "E = (if CLEAN_AT_END
      then move_xy (blot_x st) (blot_y st) @ move_z (z_safe st) @ move_z (blot_z st) @
           dwell (3 / 10) @ move_z (z_safe st)
      else [])"
  have cb: "color_block a serp st c pts =
     Remark (ColorHeader c (length pts)) #
     (pickup_brush st c @ dip_brush st c @ L @ E @ return_brush st c)"
    by (simp add: color_block_def L_def E_def)
  have n: "next_z z (Remark (ColorHeader c (length pts))) = z"
    "\<not> is_xy (Remark (ColorHeader c (length pts)))"
    by (simp_all add: next_z_def is_xy_def)
  have hs: "height_ok P (Some (z_safe st))"
    using assms(1) by (simp add: height_ok_def)
  note p = pickup_brush_safe [OF assms(3) assms(1), of c]
  note dp = dip_brush_safe [OF hs assms(1), of c]
  have l: "safe_scan P (Some (z_safe st)) L" "height_ok P (final_z (Some (z_safe st)) L)"
    using dab_loop_safe [OF assms(1,2) hs] unfolding L_def by blast+
  have e: "safe_scan P (final_z (Some (z_safe st)) L) E"
    "final_z (final_z (Some (z_safe st)) L) E = Some (z_safe st)"
    using station_visit_safe [OF l(2) assms(1)] by (simp_all add: E_def CLEAN_AT_END_def)
  note r = return_brush_safe [OF hs assms(1), of c]
  show "safe_scan P z (color_block a serp st c pts)"
    using p dp l e r n by (simp add: cb safe_scan_append final_z_append)
  show "final_z z (color_block a serp st c pts) = Some (z_safe st)"
    using p dp l e r n by (simp add: cb final_z_Cons final_z_append)
qed

lemma color_loop_safe:
  assumes "\<And>c st. stations c = Some st \<Longrightarrow> P (z_safe st)" "P Z_TRAVEL"
  shows "color_loop cp stations a serp order = Inr ls \<Longrightarrow> height_ok P z \<Longrightarrow>
     safe_scan P z ls \<and> height_ok P (final_z z ls)"
proof (induction order arbitrary: ls z)
  case Nil
  then show ?case by (simp add: final_z_Nil)
next
  case (Cons c rest)
  from Cons.prems(1) obtain pts where pts: "cp c = Some pts"
    by (auto split: option.splits)
  show ?case
  proof (cases "pts = []")
    case True
    with Cons pts show ?thesis by simp
  next
    case False
    with Cons.prems(1) pts obtain st ls' where st: "stations c = Some st"
      and ls': "color_loop cp stations a serp rest = Inr ls'"
      and ls: "ls = color_block a serp st c pts @ ls'"
      by (auto split: option.splits sum.splits)
    have ps: "P (z_safe st)" using assms(1) st .
    then have hs: "height_ok P (Some (z_safe st))" by (simp add: height_ok_def)
    from color_block_safe [OF ps assms(2) Cons.prems(2), of a serp c pts] Cons.IH [OF ls' hs]
    show ?thesis
      by (simp add: ls safe_scan_append final_z_append)
  qed
qed

lemma gen_gcode_safe:
  assumes "\<And>c st. stations c = Some st \<Longrightarrow> P (z_safe st)" "P Z_TRAVEL"
    and "gen_gcode cp order cols rows stations a = Inr prog"
  shows "safe_scan P None prog"
proof -
  from assms(3) obtain body where body:
    "color_loop cp stations a (serpentine_indices cols rows) order = Inr body"
    and prog: "prog = [Remark Title, Remark (GridInfo cols rows (dot_pitch_mm a)),
                Code ''G21'', Code ''G90'', Code ''G94'',
                Gmove 0 None None (Some Z_TRAVEL) None] @
               body @
               [Gmove 0 None None (Some Z_TRAVEL) None,
                Gmove 0 (Some 0) (Some 0) None None,
                Code ''M2'']"
    by (auto simp: gen_gcode_def split: sum.splits)
  have h: "height_ok P (Some Z_TRAVEL)"
    using assms(2) by (simp add: height_ok_def)
  from color_loop_safe [OF assms(1,2) body h] h
  show ?thesis
    by (simp add: prog safe_scan_append final_z_append is_xy_def next_z_def final_z_Cons
        final_z_Nil height_ok_def)
qed

lemma make_stations_fold_z_safe:
  "(\<And>c st. acc c = Some st \<Longrightarrow> z_safe st = Z_SAFE) \<Longrightarrow>
   foldl (\<lambda>stations (i, color). stations(color \<mapsto> station_at i color)) acc ics c = Some st \<Longrightarrow>
   z_safe st = Z_SAFE"
proof (induction ics arbitrary: acc)
  case Nil
  then show ?case by simp
next
  case (Cons ic ics)
  obtain i color where ic: "ic = (i, color)" by (cases ic)
  have "\<And>c st. (acc(color \<mapsto> station_at i color)) c = Some st \<Longrightarrow> z_safe st = Z_SAFE"
    using Cons.prems(1) by (auto simp: station_at_def Let_def split: if_splits)
  from Cons.IH [OF this] Cons.prems(2) show ?case
    by (simp add: ic)
qed

lemma make_stations_z_safe:
  "make_stations pal = Inr stations \<Longrightarrow> stations c = Some st \<Longrightarrow> z_safe st = Z_SAFE"
  unfolding make_stations_def
  by (auto split: option.splits dest!: make_stations_fold_z_safe [rotated])

lemma dab_loop_lines:
  assumes "\<forall>l\<in>set (dip_brush st c). Q l"
    and "\<And>x y. \<forall>l\<in>set (paint_dot x y DAB_DWELL_S). Q l"
  shows "\<forall>l\<in>set (dab_loop n d a st c pts s serp). Q l"
proof (induction serp arbitrary: s)
  case Nil
  show ?case by simp
next
  case (Cons cell serp)
  obtain px py where cell: "cell = (px, py)" by (cases cell)
  obtain dots_since travel_since last_xy where s: "s = (dots_since, travel_since, last_xy)"
    by (cases s)
  show ?case
  proof (cases "(px, py) \<in> set pts")
    case False
    with Cons show ?thesis by (simp add: cell s)
  next
    case True
    obtain x_mm y_mm where xy: "xy_of_pixel a px py = (x_mm, y_mm)"
      by (cases "xy_of_pixel a px py")
    from dab_loop_step [OF True xy refl refl, where n = n and d = d and st = st and color = c
        and serp = serp and dots_since = dots_since and travel_since = travel_since
        and last_xy = last_xy]
      Cons.IH assms(1) assms(2) [of x_mm y_mm]
    show ?thesis
      unfolding cell s by (auto simp del: dab_loop.simps split: if_splits)
  qed
qed

lemma color_block_lines:
  assumes "Q (Remark (ColorHeader c (length pts)))"
    and "\<forall>l\<in>set (pickup_brush st c). Q l"
    and "\<forall>l\<in>set (dip_brush st c). Q l"
    and "\<And>x y. \<forall>l\<in>set (paint_dot x y DAB_DWELL_S). Q l"
    and "\<forall>l\<in>set (move_xy (blot_x st) (blot_y st) @ move_z (z_safe st) @ move_z (blot_z st) @
           dwell (3 / 10) @ move_z (z_safe st)). Q l"
    and "\<forall>l\<in>set (return_brush st c). Q l"
  shows "\<forall>l\<in>set (color_block a serp st c pts). Q l"
  using assms(1,2,3,5,6) dab_loop_lines [of st c Q, OF assms(3) assms(4)]
  unfolding color_block_def by (auto split: if_splits)

lemma color_loop_lines:
  assumes "\<And>c st pts. cp c = Some pts \<Longrightarrow> pts \<noteq> [] \<Longrightarrow>
      stations c = Some st \<Longrightarrow> \<forall>l\<in>set (color_block a serp st c pts). Q l"
  shows "color_loop cp stations a serp order = Inr ls \<Longrightarrow> \<forall>l\<in>set ls. Q l"
proof (induction order arbitrary: ls)
  case Nil
  then show ?case by simp
next
  case (Cons c rest)
  from Cons.prems(1) obtain pts where pts: "cp c = Some pts"
    by (auto split: option.splits)
  show ?case
  proof (cases "pts = []")
    case True
    with Cons pts show ?thesis by simp
  next
    case False
    with Cons.prems(1) pts obtain st ls' where st: "stations c = Some st"
      and ls': "color_loop cp stations a serp rest = Inr ls'"
      and ls: "ls = color_block a serp st c pts @ ls'"
      by (auto split: option.splits sum.splits)
    from assms [OF pts False st] Cons.IH [OF ls'] show ?thesis
      by (auto simp: ls)
  qed
qed

lemma color_block_unmixed: "\<forall>l\<in>set (color_block a serp st c pts). unmixed l"
  by (rule color_block_lines)
     (simp_all add: unmixed_def is_xy_def has_z_def pickup_brush_def dip_brush_def paint_dot_def
        return_brush_def move_xy_def move_z_def dwell_def)

lemma gen_gcode_unmixed:
  assumes "gen_gcode cp order cols rows stations a = Inr prog"
  shows "\<forall>l\<in>set prog. unmixed l"
proof -
  from assms obtain body where body:
    "color_loop cp stations a (serpentine_indices cols rows) order = Inr body"
    and prog: "prog = [Remark Title, Remark (GridInfo cols rows (dot_pitch_mm a)),
                Code ''G21'', Code ''G90'', Code ''G94'',
                Gmove 0 None None (Some Z_TRAVEL) None] @
               body @
               [Gmove 0 None None (Some Z_TRAVEL) None,
                Gmove 0 (Some 0) (Some 0) None None,
                Code ''M2'']"
    by (auto simp: gen_gcode_def split: sum.splits)
  have "\<forall>l\<in>set body. unmixed l"
    using color_loop_lines [OF color_block_unmixed body] .
  then show ?thesis
    by (auto simp: prog unmixed_def is_xy_def has_z_def)
qed

text \<open>
  Claim C1. For the stations of either palette and every colour assignment, colour order,
  grid and parameters, scan the emitted stream with the vertical position as running state
  (unknown before the initial ascent, then the last Z commanded): every line with an X or Y
  word is met at a known height that is at or above the travel height \<open>Z_TRAVEL\<close>; more
  precisely the height is then exactly the travel height \<open>Z_TRAVEL\<close> or the safe height
  \<open>Z_SAFE\<close> of the stations. No line carries both an X or Y word and a Z word, so every
  motion line is a pure X/Y move or a pure Z move.
\<close>

theorem gen_gcode_safe_height:
  assumes "make_stations pal = Inr stations"
    and "gen_gcode color_points color_order grid_cols grid_rows stations a = Inr prog"
  shows "safe_scan (\<lambda>v. Z_TRAVEL \<le> v) None prog \<and>
         safe_scan (\<lambda>v. v = Z_TRAVEL \<or> v = Z_SAFE) None prog \<and>
         (\<forall>l\<in>set prog. unmixed l)"
proof -
  have zs: "\<And>c st. stations c = Some st \<Longrightarrow> z_safe st = Z_SAFE"
    using make_stations_z_safe [OF assms(1)] .
  have "safe_scan (\<lambda>v. Z_TRAVEL \<le> v) None prog"
    by (rule gen_gcode_safe [OF _ _ assms(2)]) (simp_all add: zs Z_TRAVEL_def Z_SAFE_def)
  moreover have "safe_scan (\<lambda>v. v = Z_TRAVEL \<or> v = Z_SAFE) None prog"
    by (rule gen_gcode_safe [OF _ _ assms(2)]) (simp_all add: zs)
  ultimately show ?thesis
    using gen_gcode_unmixed [OF assms(2)] by blast
qed

theorem gen_gcode_safe_height_witness:
  "\<exists>stations prog.
     make_stations ''rgb6'' = Inr stations \<and>
     gen_gcode [''black'' \<mapsto> [(0, 0), (1, 0)]] [''black''] 2 1 stations
       \<lparr>width_mm = 6, height_mm = 3, dot_pitch_mm = 3, origin_x = 0, origin_y = 0,
         margin_mm = 0, palette = ''rgb6''\<rparr> = Inr prog \<and>
     length prog = 48 \<and>
     safe_scan (\<lambda>v. Z_TRAVEL \<le> v) None prog \<and>
     safe_scan (\<lambda>v. v = Z_TRAVEL \<or> v = Z_SAFE) None prog \<and>
     (\<forall>l\<in>set prog. unmixed l)"
proof -
  let ?a = "\<lparr>width_mm = 6, height_mm = 3, dot_pitch_mm = 3, origin_x = 0, origin_y = 0,
         margin_mm = 0, palette = ''rgb6''\<rparr>"
  obtain stations where ms: "make_stations ''rgb6'' = Inr stations"
    and blk: "stations ''black'' = Some (station_at 0 ''black'')"
    by (simp add: make_stations_def PALETTES_def COLOR_ORDER_RGB6_def)
  have serp: "serpentine_indices 2 (Suc 0) = [(0, 0), (Suc 0, 0)]"
    by (simp add: serpentine_indices_def serpentine_row_def upt_rec numeral_2_eq_2)
  obtain prog where g: "gen_gcode [''black'' \<mapsto> [(0, 0), (1, 0)]] [''black''] 2 1 stations ?a = Inr prog"
    by (simp add: gen_gcode_def blk)
  have len: "length prog = 48"
    using g
    by (auto simp: gen_gcode_def blk serp color_block_def pickup_brush_def dip_brush_def
        return_brush_def paint_dot_def move_xy_def move_z_def dwell_def Let_def xy_of_pixel_def
        RE_DIP_EVERY_N_DOTS_def RE_DIP_AFTER_TRAVEL_MM_def hypot_def CLEAN_AT_END_def)
  from gen_gcode_safe_height [OF ms g] ms g len show ?thesis
    by blast
qed

subsection \<open>Unused colours\<close>

lemma color_loop_removeAll:
  assumes "cp c = Some []"
  shows "color_loop cp stations a serp (removeAll c order) = color_loop cp stations a serp order"
  using assms by (induction order) (auto split: option.splits sum.splits)

lemma color_block_names_other:
  assumes "c' \<noteq> c"
  shows "\<forall>l\<in>set (color_block a serp st c' pts). \<not> names_color c l"
  using assms
  by (intro color_block_lines)
     (simp_all add: names_color_def pickup_brush_def dip_brush_def paint_dot_def
        return_brush_def move_xy_def move_z_def dwell_def)

text \<open>
  Claim C8. A colour whose list of dabs is empty contributes nothing to the stream: the
  result of \<^verbatim>\<open>gen_gcode\<close> is the one obtained with that colour removed from the colour
  order, and no emitted line is a header, pickup, dip or return remark of that colour.
\<close>

theorem unused_color_contributes_nothing:
  assumes "color_points c = Some []"
  shows "gen_gcode color_points color_order grid_cols grid_rows stations a =
           gen_gcode color_points (removeAll c color_order) grid_cols grid_rows stations a \<and>
         (\<forall>prog. gen_gcode color_points color_order grid_cols grid_rows stations a = Inr prog \<longrightarrow>
            (\<forall>l\<in>set prog. \<not> names_color c l))"
proof -
  have 1: "gen_gcode color_points color_order grid_cols grid_rows stations a =
           gen_gcode color_points (removeAll c color_order) grid_cols grid_rows stations a"
    by (simp add: gen_gcode_def color_loop_removeAll [where cp = color_points and c = c, OF assms])
  have 2: "\<forall>l\<in>set prog. \<not> names_color c l"
    if g: "gen_gcode color_points color_order grid_cols grid_rows stations a = Inr prog" for prog
  proof -
    from g obtain body where body:
      "color_loop color_points stations a (serpentine_indices grid_cols grid_rows) color_order
         = Inr body"
      and prog: "prog = [Remark Title, Remark (GridInfo grid_cols grid_rows (dot_pitch_mm a)),
                Code ''G21'', Code ''G90'', Code ''G94'',
                Gmove 0 None None (Some Z_TRAVEL) None] @
               body @
               [Gmove 0 None None (Some Z_TRAVEL) None,
                Gmove 0 (Some 0) (Some 0) None None,
                Code ''M2'']"
      by (auto simp: gen_gcode_def split: sum.splits)
    have "\<forall>l\<in>set (color_block a (serpentine_indices grid_cols grid_rows) st c' pts).
            \<not> names_color c l"
      if "color_points c' = Some pts" "pts \<noteq> []" for c' st pts
      using that assms by (intro color_block_names_other) auto
    from color_loop_lines [OF this body] have "\<forall>l\<in>set body. \<not> names_color c l"
      by blast
    then show ?thesis
      by (auto simp: prog names_color_def)
  qed
  from 1 2 show ?thesis by blast
qed

theorem unused_color_contributes_nothing_witness:
  "gen_gcode [''black'' \<mapsto> [(0, 0)], ''blue'' \<mapsto> []] [''black'', ''blue''] 1 1
     [''black'' \<mapsto> station_at 0 ''black'', ''blue'' \<mapsto> station_at 1 ''blue'']
     \<lparr>width_mm = 3, height_mm = 3, dot_pitch_mm = 3, origin_x = 0, origin_y = 0,
       margin_mm = 0, palette = ''rgb6''\<rparr> =
   gen_gcode [''black'' \<mapsto> [(0, 0)], ''blue'' \<mapsto> []] [''black''] 1 1
     [''black'' \<mapsto> station_at 0 ''black'', ''blue'' \<mapsto> station_at 1 ''blue'']
     \<lparr>width_mm = 3, height_mm = 3, dot_pitch_mm = 3, origin_x = 0, origin_y = 0,
       margin_mm = 0, palette = ''rgb6''\<rparr> \<and>
   (\<exists>prog. gen_gcode [''black'' \<mapsto> [(0, 0)], ''blue'' \<mapsto> []] [''black'', ''blue''] 1 1
     [''black'' \<mapsto> station_at 0 ''black'', ''blue'' \<mapsto> station_at 1 ''blue'']
     \<lparr>width_mm = 3, height_mm = 3, dot_pitch_mm = 3, origin_x = 0, origin_y = 0,
       margin_mm = 0, palette = ''rgb6''\<rparr> = Inr prog \<and>
     Remark (Pickup ''black'') \<in> set prog \<and>
     list_all (\<lambda>l. \<not> names_color ''blue'' l) prog)"
proof -
  let ?cp = "[''black'' \<mapsto> [(0::nat, 0::nat)], ''blue'' \<mapsto> []]"
  let ?st = "[''black'' \<mapsto> station_at 0 ''black'', ''blue'' \<mapsto> station_at 1 ''blue'']"
  let ?a = "\<lparr>width_mm = 3, height_mm = 3, dot_pitch_mm = 3, origin_x = 0, origin_y = 0,
       margin_mm = 0, palette = ''rgb6''\<rparr>"
  have e: "?cp ''blue'' = Some []" by simp
  have r: "removeAll ''blue'' [''black'', ''blue''] = [''black'']" by simp
  obtain prog where g: "gen_gcode ?cp [''black'', ''blue''] 1 1 ?st ?a = Inr prog"
    by (simp add: gen_gcode_def)
  have p: "Remark (Pickup ''black'') \<in> set prog"
    using g by (auto simp: gen_gcode_def color_block_def pickup_brush_def)
  from unused_color_contributes_nothing [where color_points = ?cp and c = "''blue''"
      and color_order = "[''black'', ''blue'']" and grid_cols = 1 and grid_rows = 1
      and stations = ?st and a = ?a, OF e] g p r
  show ?thesis
    by (simp add: list_all_iff del: fun_upd_apply)
qed

subsection \<open>Re-dip rule\<close>















subsection \<open>Error diffusion equals the reference pass\<close>

lemma shaped_update:
  assumes "shaped w h p" "length r = w"
  shows "shaped w h (p[y := r])"
  unfolding shaped_def
proof (intro conjI allI impI)
  show "length (p[y := r]) = h" using assms(1) by (simp add: shaped_def)
  fix ya assume "ya < h"
  with assms show "length (p[y := r] ! ya) = w"
    by (cases "ya = y") (simp_all add: shaped_def)
qed

lemma add_cell_shaped: "shaped w h arr \<Longrightarrow> shaped w h (add_cell arr y x v)"
proof (cases "y < h")
  case True
  assume s: "shaped w h arr"
  with True have "length ((arr ! y)[x := arr ! y ! x + v]) = w" by (simp add: shaped_def)
  from shaped_update [OF s this] show ?thesis by (simp add: add_cell_def)
next
  case False
  assume "shaped w h arr"
  with False show ?thesis by (simp add: add_cell_def shaped_def)
qed

lemma set_cell_shaped: "shaped w h out \<Longrightarrow> shaped w h (set_cell out y x v)"
proof (cases "y < h")
  case True
  assume s: "shaped w h out"
  with True have "length ((out ! y)[x := v]) = w" by (simp add: shaped_def)
  from shaped_update [OF s this] show ?thesis by (simp add: set_cell_def)
next
  case False
  assume "shaped w h out"
  with False show ?thesis by (simp add: set_cell_def shaped_def)
qed

lemma add_cell_nth:
  "shaped w h arr \<Longrightarrow> y < h \<Longrightarrow> x < w \<Longrightarrow> y' < h \<Longrightarrow> x' < w \<Longrightarrow>
   add_cell arr y x v ! y' ! x' = arr ! y' ! x' + (if y' = y \<and> x' = x then v else 0)"
  by (auto simp: shaped_def add_cell_def nth_list_update)

lemma set_cell_nth:
  "shaped w h out \<Longrightarrow> y < h \<Longrightarrow> x < w \<Longrightarrow> y' < h \<Longrightarrow> x' < w \<Longrightarrow>
   set_cell out y x v ! y' ! x' = (if y' = y \<and> x' = x then v else out ! y' ! x')"
  by (auto simp: shaped_def set_cell_def nth_list_update)

lemma diffused_cases:
  assumes "x < w" "y < h" "x' < w" "y' < h"
  shows "diffused w h (int x, int y) (int x', int y') =
     (if y' = y \<and> x' = x + 1 then 7 / 16 else 0) +
     (if y' = y + 1 \<and> x' + 1 = x then 3 / 16 else 0) +
     (if y' = y + 1 \<and> x' = x then 5 / 16 else 0) +
     (if y' = y + 1 \<and> x' = x + 1 then 1 / 16 else 0)"
  using assms by (auto simp: diffused_def diffusion_targets_def in_grid_def)

lemma fs_cell_arr:
  assumes "shaped w h arr" "x < w" "y < h" "x' < w" "y' < h"
  shows "fst (fs_cell w h y x (arr, out)) ! y' ! x' =
     arr ! y' ! x' +
     (arr ! y ! x - real_of_int (threshold (arr ! y ! x))) * diffused w h (int x, int y) (int x', int y')"
proof -
  define err where "err = arr ! y ! x - real_of_int (threshold (arr ! y ! x))"
  define a1 where "a1 = (if x + 1 < w then add_cell arr y (x + 1) (err * 7 / 16) else arr)"
  define a2 where "a2 = (if y + 1 < h \<and> 0 < x then add_cell a1 (y + 1) (x - 1) (err * 3 / 16) else a1)"
  define a3 where "a3 = (if y + 1 < h then add_cell a2 (y + 1) x (err * 5 / 16) else a2)"
  define a4 where "a4 = (if y + 1 < h \<and> x + 1 < w then add_cell a3 (y + 1) (x + 1) (err * 1 / 16) else a3)"
  have f: "fst (fs_cell w h y x (arr, out)) = a4"
    by (simp add: fs_cell_def Let_def a4_def a3_def a2_def a1_def err_def threshold_def)
  have s1: "shaped w h a1" using assms(1) by (simp add: a1_def add_cell_shaped)
  have s2: "shaped w h a2" using s1 by (simp add: a2_def add_cell_shaped)
  have s3: "shaped w h a3" using s2 by (simp add: a3_def add_cell_shaped)
  have n1: "a1 ! y' ! x' = arr ! y' ! x' + (if y' = y \<and> x' = x + 1 then err * 7 / 16 else 0)"
    using assms by (simp add: a1_def add_cell_nth)
  have n2: "a2 ! y' ! x' = a1 ! y' ! x' + (if y' = y + 1 \<and> x' + 1 = x then err * 3 / 16 else 0)"
    using assms s1 by (auto simp: a2_def add_cell_nth)
  have n3: "a3 ! y' ! x' = a2 ! y' ! x' + (if y' = y + 1 \<and> x' = x then err * 5 / 16 else 0)"
    using assms s2 by (auto simp: a3_def add_cell_nth)
  have n4: "a4 ! y' ! x' = a3 ! y' ! x' + (if y' = y + 1 \<and> x' = x + 1 then err * 1 / 16 else 0)"
    using assms s3 by (auto simp: a4_def add_cell_nth)
  show ?thesis
    unfolding f n4 n3 n2 n1 diffused_cases [OF assms(2,3,4,5)] err_def [symmetric]
    by (simp add: algebra_simps)
qed

lemma fs_cell_shaped:
  assumes "shaped w h arr" "shaped w h out"
  shows "shaped w h (fst (fs_cell w h y x (arr, out)))" "shaped w h (snd (fs_cell w h y x (arr, out)))"
  using assms by (simp_all add: fs_cell_def Let_def add_cell_shaped set_cell_shaped)

lemma fs_cell_out:
  assumes "shaped w h out" "x < w" "y < h" "x' < w" "y' < h"
  shows "snd (fs_cell w h y x (arr, out)) ! y' ! x' =
     (if y' = y \<and> x' = x then threshold (arr ! y ! x) else out ! y' ! x')"
  using assms by (simp add: fs_cell_def Let_def set_cell_nth threshold_def)

lemma diffuse_fold:
  fixes e :: real
  shows "foldl (\<lambda>val (t, k). val(t := val t + e * k)) val ts c =
     val c + e * sum_list (map snd (filter (\<lambda>(t, k). t = c) ts))"
  by (induction ts arbitrary: val) (auto simp: algebra_simps)

lemma reference_step_val:
  "fst (reference_step w h (val, bin) c) t =
     val t + (val c - real_of_int (threshold (val c))) * diffused w h c t"
proof -
  have "filter (\<lambda>(t', k). t' = t) (filter (\<lambda>(t, k). in_grid w h t) (diffusion_targets c)) =
        filter (\<lambda>(t', k). t' = t \<and> in_grid w h t') (diffusion_targets c)"
    by (auto intro: filter_cong)
  then show ?thesis
    by (simp add: reference_step_def Let_def diffuse_fold diffused_def)
qed

lemma reference_step_bin:
  "snd (reference_step w h (val, bin) c) t = (if t = c then threshold (val c) else bin t)"
  by (simp add: reference_step_def Let_def)

lemma fs_cell_refines:
  assumes "refines w h s t" "x < w" "y < h"
  shows "refines w h (fs_cell w h y x s) (reference_step w h t (int x, int y))"
proof -
  obtain arr out where s: "s = (arr, out)" by (cases s)
  obtain val bin where t: "t = (val, bin)" by (cases t)
  from assms(1) have sa: "shaped w h arr" and so: "shaped w h out"
    and eq: "\<And>x y. x < w \<Longrightarrow> y < h \<Longrightarrow> arr ! y ! x = val (int x, int y)"
      "\<And>x y. x < w \<Longrightarrow> y < h \<Longrightarrow> out ! y ! x = bin (int x, int y)"
    by (simp_all add: refines_def s t)
  have "fst (fs_cell w h y x (arr, out)) ! y' ! x' =
      fst (reference_step w h (val, bin) (int x, int y)) (int x', int y')"
    if "x' < w" "y' < h" for x' y'
    unfolding fs_cell_arr [OF sa assms(2,3) that] reference_step_val
    using that assms(2,3) by (simp add: eq)
  moreover have "snd (fs_cell w h y x (arr, out)) ! y' ! x' =
      snd (reference_step w h (val, bin) (int x, int y)) (int x', int y')"
    if "x' < w" "y' < h" for x' y'
    unfolding fs_cell_out [OF so assms(2,3) that] reference_step_bin
    using that assms(2,3) by (auto simp: eq)
  ultimately show ?thesis
    unfolding s t refines_def using fs_cell_shaped [OF sa so] by blast
qed

lemma fs_cells_refine:
  "\<forall>x\<in>set xs. x < w \<Longrightarrow> y < h \<Longrightarrow> refines w h s t \<Longrightarrow>
   refines w h (foldl (\<lambda>s x. fs_cell w h y x s) s xs)
     (foldl (reference_step w h) t (map (\<lambda>x. (int x, int y)) xs))"
proof (induction xs arbitrary: s t)
  case Nil
  then show ?case by simp
next
  case (Cons x xs)
  from Cons.prems have "refines w h (fs_cell w h y x s) (reference_step w h t (int x, int y))"
    by (intro fs_cell_refines) simp_all
  with Cons show ?case by simp
qed

lemma fs_row_refines:
  "y < h \<Longrightarrow> refines w h s t \<Longrightarrow>
   refines w h (fs_row w h y s) (foldl (reference_step w h) t (map (\<lambda>x. (int x, int y)) [0..<w]))"
  unfolding fs_row_def by (rule fs_cells_refine) simp_all

lemma fs_rows_refine:
  "\<forall>y\<in>set ys. y < h \<Longrightarrow> refines w h s t \<Longrightarrow>
   refines w h (foldl (\<lambda>s y. fs_row w h y s) s ys)
     (foldl (reference_step w h) t (concat (map (\<lambda>y. map (\<lambda>x. (int x, int y)) [0..<w]) ys)))"
proof (induction ys arbitrary: s t)
  case Nil
  then show ?case by simp
next
  case (Cons y ys)
  from Cons.prems have "refines w h (fs_row w h y s)
      (foldl (reference_step w h) t (map (\<lambda>x. (int x, int y)) [0..<w]))"
    by (intro fs_row_refines) simp_all
  with Cons show ?case by simp
qed

lemma fs_loop_refines:
  "refines w h s t \<Longrightarrow>
   refines w h (fs_loop w h s) (foldl (reference_step w h) t (reference_cells w h))"
  unfolding fs_loop_def reference_cells_def by (rule fs_rows_refine) simp_all

lemma map_err_total:
  "\<forall>x\<in>set xs. f x = Inr (g x) \<Longrightarrow> map_err f xs = Inr (map g xs)"
  by (induction xs) simp_all

lemma copy_plane_ok:
  assumes "h \<le> length img_chan" "\<forall>y<h. w \<le> length (img_chan ! y)"
  shows "copy_plane img_chan w h = Inr (map (\<lambda>y. map (\<lambda>x. img_chan ! y ! x) [0..<w]) [0..<h])"
  unfolding copy_plane_def
proof (rule map_err_total, rule ballI)
  fix y assume "y \<in> set [0..<h]"
  then have y: "y < h" by simp
  show "map_err (read_cell img_chan y) [0..<w] = Inr (map (\<lambda>x. img_chan ! y ! x) [0..<w])"
    by (rule map_err_total) (use y assms in \<open>auto simp: read_cell_def\<close>)
qed

lemma initial_refines:
  "refines w h (map (\<lambda>y. map (\<lambda>x. img_chan ! y ! x) [0..<w]) [0..<h], replicate h (replicate w 0))
     (plane_fun img_chan, \<lambda>c. 0)"
  by (simp add: refines_def shaped_def plane_fun_def)

lemma refines_out:
  assumes "refines w h s t"
  shows "snd s = tabulate w h (snd t)"
proof (rule nth_equalityI)
  from assms have so: "shaped w h (snd s)" by (simp add: refines_def)
  then show "length (snd s) = length (tabulate w h (snd t))"
    by (simp add: shaped_def tabulate_def)
  fix y assume "y < length (snd s)"
  with so have y: "y < h" by (simp add: shaped_def)
  show "snd s ! y = tabulate w h (snd t) ! y"
  proof (rule nth_equalityI)
    from so y show "length (snd s ! y) = length (tabulate w h (snd t) ! y)"
      by (simp add: shaped_def tabulate_def)
    fix x assume "x < length (snd s ! y)"
    with so y have "x < w" by (simp add: shaped_def)
    with y assms show "snd s ! y ! x = tabulate w h (snd t) ! y ! x"
      by (simp add: refines_def tabulate_def)
  qed
qed

lemma reference_binary_fold:
  "\<forall>c. snd t c = 0 \<or> snd t c = 1 \<Longrightarrow>
   \<forall>c. snd (foldl (reference_step w h) t cs) c = 0 \<or> snd (foldl (reference_step w h) t cs) c = 1"
proof (induction cs arbitrary: t)
  case Nil
  then show ?case by simp
next
  case (Cons c cs)
  obtain val bin where t: "t = (val, bin)" by (cases t)
  from Cons.prems have "\<forall>c'. snd (reference_step w h t c) c' = 0 \<or> snd (reference_step w h t c) c' = 1"
    by (simp add: t reference_step_bin threshold_def)
  from Cons.IH [OF this] show ?case by simp
qed

lemma reference_binary:
  "snd (reference_diffusion w h val) c = 0 \<or> snd (reference_diffusion w h val) c = 1"
proof -
  have "\<forall>c. snd (foldl (reference_step w h) (val, \<lambda>c. 0) (reference_cells w h)) c = 0 \<or>
      snd (foldl (reference_step w h) (val, \<lambda>c. 0) (reference_cells w h)) c = 1"
    by (rule reference_binary_fold) simp
  then show ?thesis
    unfolding reference_diffusion_def by blast
qed

lemma floyd_steinberg_refines:
  assumes "h \<le> length img_chan" "\<forall>y<h. w \<le> length (img_chan ! y)"
  shows "floyd_steinberg_dither_channel img_chan w h =
     Inr (tabulate w h (snd (reference_diffusion w h (plane_fun img_chan))))"
proof -
  from fs_loop_refines [OF initial_refines]
  have "refines w h
      (fs_loop w h (map (\<lambda>y. map (\<lambda>x. img_chan ! y ! x) [0..<w]) [0..<h], replicate h (replicate w 0)))
      (reference_diffusion w h (plane_fun img_chan))"
    by (simp add: reference_diffusion_def)
  from refines_out [OF this] show ?thesis
    by (simp add: floyd_steinberg_dither_channel_def copy_plane_ok [OF assms])
qed

text \<open>
  Claim C4. For every plane with at least \<open>h\<close> rows of at least \<open>w\<close> entries (in particular
  every \<open>w\<close> by \<open>h\<close> plane) the pass raises nothing and its result is the result of the
  reference pass: cells in row-major order, the current (error-adjusted) value thresholded at
  \<open>1/2\<close>, the error (current value minus binary output) added to the right neighbour with
  weight \<open>7/16\<close> and to the next row's left, same and right column with weights \<open>3/16\<close>,
  \<open>5/16\<close> and \<open>1/16\<close>, neighbours outside the grid skipped. The output has \<open>h\<close> rows of
  \<open>w\<close> entries, each 0 or 1.
\<close>

theorem error_diffusion_equals_reference:
  assumes "h \<le> length img_chan" "\<forall>y<h. w \<le> length (img_chan ! y)"
  shows "\<exists>out. floyd_steinberg_dither_channel img_chan w h = Inr out \<and>
           out = tabulate w h (snd (reference_diffusion w h (plane_fun img_chan))) \<and>
           shaped w h out \<and>
           (\<forall>row\<in>set out. \<forall>v\<in>set row. v = 0 \<or> v = 1)"
proof -
  let ?out = "tabulate w h (snd (reference_diffusion w h (plane_fun img_chan)))"
  have "shaped w h ?out"
    by (simp add: shaped_def tabulate_def)
  moreover have "\<forall>row\<in>set ?out. \<forall>v\<in>set row. v = 0 \<or> v = 1"
    using reference_binary [of w h "plane_fun img_chan"] by (auto simp: tabulate_def)
  ultimately show ?thesis
    using floyd_steinberg_refines [OF assms] by blast
qed

theorem error_diffusion_equals_reference_witness:
  "floyd_steinberg_dither_channel [[3 / 10, 6 / 10], [5 / 10, 2 / 10]] 2 2 = Inr [[0, 1], [1, 0]] \<and>
   tabulate 2 2 (snd (reference_diffusion 2 2 (plane_fun [[3 / 10, 6 / 10], [5 / 10, 2 / 10]]))) =
     [[0, 1], [1, 0]]"
proof -
  let ?img = "[[3 / 10, 6 / 10], [5 / 10, 2 / 10 :: real]]"
  have e: "floyd_steinberg_dither_channel ?img 2 2 = Inr [[0, 1], [1, 0]]"
    by code_simp
  have "(2::nat) \<le> length ?img" by simp
  moreover have "\<forall>y<2. (2::nat) \<le> length (?img ! y)"
    by (simp add: less_Suc_eq numeral_2_eq_2)
  ultimately show ?thesis
    using error_diffusion_equals_reference [of 2 ?img 2] e by simp
qed

subsection \<open>Coverage of the error-diffusion pass\<close>

lemma diffused_explicit:
  "diffused w h (x, y) t =
     (if t = (x + 1, y) \<and> in_grid w h t then 7 / 16 else 0) +
     (if t = (x - 1, y + 1) \<and> in_grid w h t then 3 / 16 else 0) +
     (if t = (x, y + 1) \<and> in_grid w h t then 5 / 16 else 0) +
     (if t = (x + 1, y + 1) \<and> in_grid w h t then 1 / 16 else 0)"
  by (auto simp: diffused_def diffusion_targets_def)

lemma kept_explicit:
  "kept w h (x, y) =
     (if in_grid w h (x + 1, y) then 7 / 16 else 0) +
     (if in_grid w h (x - 1, y + 1) then 3 / 16 else 0) +
     (if in_grid w h (x, y + 1) then 5 / 16 else 0) +
     (if in_grid w h (x + 1, y + 1) then 1 / 16 else 0)"
  by (auto simp: kept_def diffusion_targets_def)

lemma diffused_nonneg: "0 \<le> diffused w h c t"
  by (cases c) (simp add: diffused_explicit)

lemma kept_bounds: "0 \<le> kept w h c" "kept w h c \<le> 1"
  by (cases c; simp add: kept_explicit)+

lemma sum_indicator:
  fixes k :: real
  assumes "finite A"
  shows "(\<Sum>t\<in>A. if t = a \<and> P t then k else 0) = (if a \<in> A \<and> P a then k else 0)"
proof -
  have "(\<Sum>t\<in>A. if t = a \<and> P t then k else 0) = (\<Sum>t\<in>A. if a = t then (if P a then k else 0) else 0)"
    by (rule sum.cong) auto
  also have "\<dots> = (if a \<in> A then (if P a then k else 0) else 0)"
    using assms by (rule sum.delta')
  finally show ?thesis by simp
qed

lemma sum_diffused_targets:
  assumes "finite A"
  shows "(\<Sum>t\<in>A. diffused w h (x, y) t) =
     (if (x + 1, y) \<in> A \<and> in_grid w h (x + 1, y) then 7 / 16 else 0) +
     (if (x - 1, y + 1) \<in> A \<and> in_grid w h (x - 1, y + 1) then 3 / 16 else 0) +
     (if (x, y + 1) \<in> A \<and> in_grid w h (x, y + 1) then 5 / 16 else 0) +
     (if (x + 1, y + 1) \<in> A \<and> in_grid w h (x + 1, y + 1) then 1 / 16 else 0)"
  unfolding diffused_explicit sum.distrib sum_indicator [OF assms] ..

lemma sum_diffused_le_kept:
  assumes "finite A"
  shows "(\<Sum>t\<in>A. diffused w h c t) \<le> kept w h c"
  by (cases c) (simp add: sum_diffused_targets [OF assms] kept_explicit add_mono)

lemma sum_diffused_eq_kept:
  assumes "finite A" "\<And>t. in_grid w h t \<Longrightarrow> diffused w h c t \<noteq> 0 \<Longrightarrow> t \<in> A"
  shows "(\<Sum>t\<in>A. diffused w h c t) = kept w h c"
proof -
  obtain x y where c: "c = (x, y)" by (cases c)
  have 1: "in_grid w h (x + 1, y) \<Longrightarrow> (x + 1, y) \<in> A"
    by (rule assms(2)) (simp_all add: c diffused_explicit)
  have 2: "in_grid w h (x - 1, y + 1) \<Longrightarrow> (x - 1, y + 1) \<in> A"
    by (rule assms(2)) (simp_all add: c diffused_explicit)
  have 3: "in_grid w h (x, y + 1) \<Longrightarrow> (x, y + 1) \<in> A"
    by (rule assms(2)) (simp_all add: c diffused_explicit)
  have 4: "in_grid w h (x + 1, y + 1) \<Longrightarrow> (x + 1, y + 1) \<in> A"
    by (rule assms(2)) (simp_all add: c diffused_explicit)
  show ?thesis
    using 1 2 3 4 by (simp add: c sum_diffused_targets [OF assms(1)] kept_explicit)
qed

lemma diffused_sources:
  "diffused w h s (x, y) =
     (if s = (x - 1, y) \<and> in_grid w h (x, y) then 7 / 16 else 0) +
     (if s = (x + 1, y - 1) \<and> in_grid w h (x, y) then 3 / 16 else 0) +
     (if s = (x, y - 1) \<and> in_grid w h (x, y) then 5 / 16 else 0) +
     (if s = (x - 1, y - 1) \<and> in_grid w h (x, y) then 1 / 16 else 0)"
  by (cases s) (auto simp: diffused_explicit)

lemma sum_diffused_sources_le:
  assumes "finite A"
  shows "(\<Sum>s\<in>A. diffused w h s t) \<le> 1"
proof -
  obtain x y where t: "t = (x, y)" by (cases t)
  have "(\<Sum>s\<in>A. diffused w h s (x, y)) =
     (if (x - 1, y) \<in> A \<and> in_grid w h (x, y) then 7 / 16 else 0) +
     (if (x + 1, y - 1) \<in> A \<and> in_grid w h (x, y) then 3 / 16 else 0) +
     (if (x, y - 1) \<in> A \<and> in_grid w h (x, y) then 5 / 16 else 0) +
     (if (x - 1, y - 1) \<in> A \<and> in_grid w h (x, y) then 1 / 16 else 0)"
    unfolding diffused_sources sum.distrib sum_indicator [OF assms, where P = "\<lambda>s. in_grid w h (x, y)"] ..
  then show ?thesis
    by (simp add: t)
qed

lemma diffused_before: "before p c \<Longrightarrow> diffused w h c p = 0"
  by (cases c; cases p) (auto simp: diffused_explicit before_def)

lemma diffused_self: "diffused w h c c = 0"
  by (cases c) (auto simp: diffused_explicit)

lemma diffused_out_of_grid: "\<not> in_grid w h t \<Longrightarrow> diffused w h c t = 0"
  by (cases c) (auto simp: diffused_explicit)

lemma finite_grid: "finite {c. in_grid w h c}"
proof -
  have "{c. in_grid w h c} \<subseteq> {0..<int w} \<times> {0..<int h}"
    by (auto simp: in_grid_def)
  then show ?thesis
    by (rule finite_subset) simp
qed

lemma threshold_error:
  assumes "- (1 / 2) \<le> v" "v \<le> 3 / 2"
  shows "\<bar>v - real_of_int (threshold v)\<bar> \<le> 1 / 2"
proof (cases "1 / 2 \<le> v")
  case True
  then have "real_of_int (threshold v) = 1" by (simp add: threshold_def)
  with True assms show ?thesis by linarith
next
  case False
  then have "real_of_int (threshold v) = 0" by (simp add: threshold_def)
  with False assms show ?thesis by linarith
qed

lemma diffusion_inv_step:
  assumes inv: "diffusion_inv w h v0 ps t"
    and cg: "in_grid w h c" and cn: "c \<notin> set ps" and cb: "\<forall>p\<in>set ps. before p c"
    and v0: "0 \<le> v0 c" "v0 c \<le> 1"
  shows "diffusion_inv w h v0 (ps @ [c]) (reference_step w h t c)"
proof -
  obtain val bin where t: "t = (val, bin)" by (cases t)
  define G where "G = {c. in_grid w h c}"
  define b where "b = threshold (val c)"
  define err where "err = val c - real_of_int b"
  define val' where "val' = fst (reference_step w h (val, bin) c)"
  define bin' where "bin' = snd (reference_step w h (val, bin) c)"
  have finG: "finite G" by (simp add: G_def finite_grid)
  have val': "val' u = val u + err * diffused w h c u" for u
    by (simp add: val'_def reference_step_val err_def b_def)
  have bin': "bin' u = (if u = c then b else bin u)" for u
    by (simp add: bin'_def reference_step_bin b_def)
  from inv have A: "\<And>u. u \<notin> set ps \<Longrightarrow> \<bar>val u - v0 u\<bar> \<le> (\<Sum>s\<in>set ps. diffused w h s u) / 2"
    and B: "\<bar>(\<Sum>u\<in>G - set ps. val u) + (\<Sum>u\<in>set ps. real_of_int (bin u)) - (\<Sum>u\<in>G. v0 u)\<bar>
        \<le> (\<Sum>s\<in>set ps. 1 - kept w h s) / 2"
    unfolding diffusion_inv_def t G_def fst_conv snd_conv by blast+
  have "\<bar>val c - v0 c\<bar> \<le> (\<Sum>s\<in>set ps. diffused w h s c) / 2"
    by (rule A [OF cn])
  also have "\<dots> \<le> 1 / 2"
    using sum_diffused_sources_le [of "set ps" w h c] by simp
  finally have "\<bar>val c - v0 c\<bar> \<le> 1 / 2" .
  with v0 have "- (1 / 2) \<le> val c" "val c \<le> 3 / 2"
    by linarith+
  then have err: "\<bar>err\<bar> \<le> 1 / 2"
    unfolding err_def b_def by (rule threshold_error)
  have A': "\<bar>val' u - v0 u\<bar> \<le> (\<Sum>s\<in>set (ps @ [c]). diffused w h s u) / 2"
    if u: "u \<notin> set (ps @ [c])" for u
  proof -
    from u have up: "u \<notin> set ps" by simp
    have "\<bar>err\<bar> * diffused w h c u \<le> (1 / 2) * diffused w h c u"
      by (rule mult_right_mono [OF err diffused_nonneg])
    then have "\<bar>err * diffused w h c u\<bar> \<le> diffused w h c u / 2"
      using diffused_nonneg [of w h c u] by (simp add: abs_mult)
    then have "\<bar>val' u - v0 u\<bar> \<le> \<bar>val u - v0 u\<bar> + diffused w h c u / 2"
      unfolding val' by linarith
    also have "\<dots> \<le> (\<Sum>s\<in>set ps. diffused w h s u) / 2 + diffused w h c u / 2"
      using A [OF up] by simp
    also have "\<dots> = (\<Sum>s\<in>set (ps @ [c]). diffused w h s u) / 2"
      using cn by (simp add: add_divide_distrib)
    finally show ?thesis .
  qed
  define U' where "U' = G - set (ps @ [c])"
  have finU': "finite U'" using finG by (simp add: U'_def)
  have U: "G - set ps = insert c U'" "c \<notin> U'"
    using cg cn by (auto simp: U'_def G_def)
  have keptc: "(\<Sum>u\<in>U'. diffused w h c u) = kept w h c"
  proof (rule sum_diffused_eq_kept [OF finU'])
    fix u assume ug: "in_grid w h u" and nz: "diffused w h c u \<noteq> 0"
    from nz have "u \<noteq> c" using diffused_self [of w h c] by auto
    moreover from nz cb have "u \<notin> set ps" using diffused_before [of u c w h] by auto
    ultimately show "u \<in> U'" using ug by (simp add: U'_def G_def)
  qed
  have "(\<Sum>u\<in>U'. val' u) = (\<Sum>u\<in>U'. val u) + err * kept w h c"
    unfolding val' sum.distrib sum_distrib_left [symmetric] keptc ..
  moreover have "(\<Sum>u\<in>G - set ps. val u) = val c + (\<Sum>u\<in>U'. val u)"
    unfolding U(1) using finU' U(2) by simp
  moreover have "(\<Sum>u\<in>set (ps @ [c]). real_of_int (bin' u)) =
      real_of_int b + (\<Sum>u\<in>set ps. real_of_int (bin u))"
  proof -
    have "(\<Sum>u\<in>set ps. real_of_int (bin' u)) = (\<Sum>u\<in>set ps. real_of_int (bin u))"
      by (rule sum.cong) (use cn in \<open>auto simp: bin'\<close>)
    then show ?thesis using cn by (simp add: bin')
  qed
  ultimately have eq: "(\<Sum>u\<in>U'. val' u) + (\<Sum>u\<in>set (ps @ [c]). real_of_int (bin' u)) - (\<Sum>u\<in>G. v0 u) =
      ((\<Sum>u\<in>G - set ps. val u) + (\<Sum>u\<in>set ps. real_of_int (bin u)) - (\<Sum>u\<in>G. v0 u)) -
      err * (1 - kept w h c)"
    by (simp add: err_def algebra_simps)
  have k1: "0 \<le> 1 - kept w h c"
    using kept_bounds(2) [of w h c] by simp
  have "\<bar>err\<bar> * (1 - kept w h c) \<le> (1 / 2) * (1 - kept w h c)"
    by (rule mult_right_mono [OF err k1])
  then have "\<bar>err * (1 - kept w h c)\<bar> \<le> (1 - kept w h c) / 2"
    using k1 by (simp add: abs_mult)
  then have "\<bar>(\<Sum>u\<in>U'. val' u) + (\<Sum>u\<in>set (ps @ [c]). real_of_int (bin' u)) - (\<Sum>u\<in>G. v0 u)\<bar>
      \<le> (\<Sum>s\<in>set ps. 1 - kept w h s) / 2 + (1 - kept w h c) / 2"
    unfolding eq using B by linarith
  also have "\<dots> = (\<Sum>s\<in>set (ps @ [c]). 1 - kept w h s) / 2"
    using cn by (simp add: add_divide_distrib)
  finally have B': "\<bar>(\<Sum>u\<in>U'. val' u) + (\<Sum>u\<in>set (ps @ [c]). real_of_int (bin' u)) - (\<Sum>u\<in>G. v0 u)\<bar>
      \<le> (\<Sum>s\<in>set (ps @ [c]). 1 - kept w h s) / 2" .
  show ?thesis
    unfolding diffusion_inv_def t val'_def [symmetric] bin'_def [symmetric]
    using A' B' unfolding U'_def G_def by blast
qed

lemma diffusion_inv_start: "diffusion_inv w h v0 [] (v0, \<lambda>c. 0)"
  by (simp add: diffusion_inv_def)

lemma before_irrefl: "\<not> before c c"
  by (simp add: before_def)

lemma diffusion_inv_fold:
  assumes "sorted_wrt before cs" "\<forall>c\<in>set cs. in_grid w h c \<and> 0 \<le> v0 c \<and> v0 c \<le> 1"
  shows "diffusion_inv w h v0 cs (foldl (reference_step w h) (v0, \<lambda>c. 0) cs)"
  using assms
proof (induction cs rule: rev_induct)
  case Nil
  show ?case by (simp add: diffusion_inv_start)
next
  case (snoc c ps)
  from snoc.prems(1) have sp: "sorted_wrt before ps" and cb: "\<forall>p\<in>set ps. before p c"
    by (simp_all add: sorted_wrt_append)
  from cb have cn: "c \<notin> set ps" using before_irrefl by blast
  from snoc.prems(2) have cg: "in_grid w h c" and v0: "0 \<le> v0 c" "v0 c \<le> 1"
    and rest: "\<forall>c\<in>set ps. in_grid w h c \<and> 0 \<le> v0 c \<and> v0 c \<le> 1"
    by simp_all
  from diffusion_inv_step [OF snoc.IH [OF sp rest] cg cn cb v0] show ?case
    by simp
qed

lemma sorted_reference_cells: "sorted_wrt before (reference_cells w h)"
proof (induction h)
  case 0
  show ?case by (simp add: reference_cells_def)
next
  case (Suc h)
  have row: "sorted_wrt before (map (\<lambda>x. (int x, int h)) [0..<w])"
    by (simp add: sorted_wrt_map before_def)
  have cross: "\<forall>p\<in>set (reference_cells w h). \<forall>c\<in>set (map (\<lambda>x. (int x, int h)) [0..<w]). before p c"
    by (auto simp: reference_cells_def before_def)
  from Suc row cross show ?case
    by (simp add: reference_cells_def sorted_wrt_append)
qed

lemma set_reference_cells: "set (reference_cells w h) = {c. in_grid w h c}"
proof (intro set_eqI iffI)
  fix c assume "c \<in> set (reference_cells w h)"
  then show "c \<in> {c. in_grid w h c}"
    by (auto simp: reference_cells_def in_grid_def)
next
  fix c assume "c \<in> {c. in_grid w h c}"
  then have g: "in_grid w h c" by simp
  define x y where "x = nat (fst c)" and "y = nat (snd c)"
  from g have "c = (int x, int y)" "x < w" "y < h"
    by (auto simp: x_def y_def in_grid_def prod_eq_iff nat_less_iff)
  then show "c \<in> set (reference_cells w h)"
    by (force simp: reference_cells_def)
qed

lemma grid_sum:
  fixes f :: "cell \<Rightarrow> real"
  shows "sum f {c. in_grid w h c} = (\<Sum>y = 0..<h. \<Sum>x = 0..<w. f (int x, int y))"
proof -
  let ?g = "\<lambda>(y, x). (int x, int y)"
  have img: "{c. in_grid w h c} = ?g ` ({0..<h} \<times> {0..<w})"
  proof (intro set_eqI iffI)
    fix c assume "c \<in> {c. in_grid w h c}"
    then have g: "in_grid w h c" by simp
    define x y where "x = nat (fst c)" and "y = nat (snd c)"
    from g have "c = ?g (y, x)" "(y, x) \<in> {0..<h} \<times> {0..<w}"
      by (auto simp: x_def y_def in_grid_def prod_eq_iff nat_less_iff)
    then show "c \<in> ?g ` ({0..<h} \<times> {0..<w})" by blast
  next
    fix c assume "c \<in> ?g ` ({0..<h} \<times> {0..<w})"
    then show "c \<in> {c. in_grid w h c}" by (auto simp: in_grid_def)
  qed
  have inj: "inj_on ?g ({0..<h} \<times> {0..<w})"
    by (auto simp: inj_on_def)
  have "sum f {c. in_grid w h c} = sum (f \<circ> ?g) ({0..<h} \<times> {0..<w})"
    unfolding img by (rule sum.reindex [OF inj])
  also have "\<dots> = (\<Sum>y = 0..<h. \<Sum>x = 0..<w. f (int x, int y))"
    by (simp add: sum.cartesian_product comp_def case_prod_unfold)
  finally show ?thesis .
qed

lemma tabulate_sum:
  fixes f :: "cell \<Rightarrow> real"
  shows "sum_list (map sum_list (tabulate w h f)) = sum f {c. in_grid w h c}"
  by (simp add: tabulate_def grid_sum comp_def interv_sum_list_conv_sum_set_nat)

lemma tabulate_sum_int:
  "real_of_int (sum_list (map sum_list (tabulate w h f))) =
     (\<Sum>c\<in>{c. in_grid w h c}. real_of_int (f c))"
proof -
  have "real_of_int (sum_list (map sum_list (tabulate w h f))) =
      sum_list (map sum_list (tabulate w h (\<lambda>c. real_of_int (f c))))"
    by (simp add: tabulate_def comp_def interv_sum_list_conv_sum_set_nat)
  then show ?thesis by (simp add: tabulate_sum)
qed

lemma shaped_tabulate:
  assumes "shaped w h p"
  shows "p = tabulate w h (plane_fun p)"
proof (rule nth_equalityI)
  from assms show "length p = length (tabulate w h (plane_fun p))"
    by (simp add: shaped_def tabulate_def)
  fix y assume "y < length p"
  with assms have y: "y < h" by (simp add: shaped_def)
  show "p ! y = tabulate w h (plane_fun p) ! y"
  proof (rule nth_equalityI)
    from assms y show "length (p ! y) = length (tabulate w h (plane_fun p) ! y)"
      by (simp add: shaped_def tabulate_def)
    fix x assume "x < length (p ! y)"
    with assms y have "x < w" by (simp add: shaped_def)
    with y show "p ! y ! x = tabulate w h (plane_fun p) ! y ! x"
      by (simp add: tabulate_def plane_fun_def)
  qed
qed

lemma lost_cell:
  assumes "x < w" "y < h"
  shows "1 - kept w h (int x, int y) =
     (if y + 1 < h then (if x = w - 1 then 1 / 2 else 0) + (if x = 0 then 3 / 16 else 0)
      else 9 / 16 + (if x = w - 1 then 7 / 16 else 0))"
  using assms by (auto simp: kept_explicit in_grid_def)

lemma lost_row:
  assumes "0 < w" "y < h"
  shows "(\<Sum>x = 0..<w. 1 - kept w h (int x, int y)) =
     (if y + 1 < h then 11 / 16 else (9 * real w + 7) / 16)"
proof -
  have "(\<Sum>x = 0..<w. 1 - kept w h (int x, int y)) =
      (\<Sum>x = 0..<w. if y + 1 < h then (if x = w - 1 then 1 / 2 else 0) + (if x = 0 then 3 / 16 else 0)
      else 9 / 16 + (if x = w - 1 then 7 / 16 else 0))"
    by (rule sum.cong) (simp_all add: lost_cell assms(2))
  also have "\<dots> = (if y + 1 < h then 11 / 16 else (9 * real w + 7) / 16)"
    using assms(1) by (simp add: sum.distrib add_divide_distrib)
  finally show ?thesis .
qed

lemma lost_total:
  assumes "0 < w" "0 < h"
  shows "(\<Sum>c\<in>{c. in_grid w h c}. 1 - kept w h c) = (11 * real h + 9 * real w - 4) / 16"
proof -
  have "(\<Sum>c\<in>{c. in_grid w h c}. 1 - kept w h c) =
      (\<Sum>y = 0..<h. \<Sum>x = 0..<w. 1 - kept w h (int x, int y))"
    by (rule grid_sum)
  also have "\<dots> = (\<Sum>y = 0..<h. if y + 1 < h then 11 / 16 else (9 * real w + 7) / 16)"
    by (rule sum.cong) (simp_all add: lost_row assms(1))
  also have "\<dots> = (\<Sum>y = 0..<h. 11 / 16 + (if y = h - 1 then (9 * real w - 4) / 16 else 0))"
    by (rule sum.cong) (auto simp: add_divide_distrib diff_divide_distrib)
  also have "\<dots> = (11 * real h + 9 * real w - 4) / 16"
    using assms(2) by (simp add: sum.distrib add_divide_distrib diff_divide_distrib)
  finally show ?thesis .
qed

lemma reference_coverage:
  assumes "\<forall>c. in_grid w h c \<longrightarrow> 0 \<le> v0 c \<and> v0 c \<le> 1"
  shows "\<bar>(\<Sum>c\<in>{c. in_grid w h c}. real_of_int (snd (reference_diffusion w h v0) c)) -
          (\<Sum>c\<in>{c. in_grid w h c}. v0 c)\<bar> \<le> (\<Sum>c\<in>{c. in_grid w h c}. 1 - kept w h c) / 2"
proof -
  have "diffusion_inv w h v0 (reference_cells w h) (reference_diffusion w h v0)"
    unfolding reference_diffusion_def
    by (rule diffusion_inv_fold [OF sorted_reference_cells])
       (use assms in \<open>simp add: set_reference_cells\<close>)
  then show ?thesis
    by (simp add: diffusion_inv_def set_reference_cells)
qed

text \<open>
  Claim C7, as amended. For every \<open>w\<close> by \<open>h\<close> plane (\<open>w, h > 0\<close>) of values in \<open>[0, 1]\<close> the
  pass returns a plane whose sum of binary outputs differs from the sum of the input values
  by at most \<open>(11 h + 9 w - 4) / 32\<close>: every quantization error is at most \<open>1/2\<close> in
  absolute value, and the difference of the sums is the error that falls off the left,
  right and bottom edges. The difference is therefore within one dab per row whenever
  \<open>9 w \<le> 21 h + 4\<close>; in particular the constant plane \<open>0.3\<close> on a 10 by 10 grid yields a
  ones-count within 10 (indeed within 6.125) of 30.
\<close>

theorem error_diffusion_coverage_bound:
  assumes "shaped w h img_chan" "\<forall>row\<in>set img_chan. \<forall>v\<in>set row. 0 \<le> v \<and> v \<le> 1"
    and "0 < w" "0 < h"
  shows "\<exists>out. floyd_steinberg_dither_channel img_chan w h = Inr out \<and>
     \<bar>real_of_int (sum_list (map sum_list out)) - sum_list (map sum_list img_chan)\<bar>
       \<le> (11 * real h + 9 * real w - 4) / 32 \<and>
     (9 * w \<le> 21 * h + 4 \<longrightarrow>
        \<bar>real_of_int (sum_list (map sum_list out)) - sum_list (map sum_list img_chan)\<bar> \<le> real h)"
proof -
  define v0 where "v0 = plane_fun img_chan"
  define out where "out = tabulate w h (snd (reference_diffusion w h v0))"
  from assms(1) have sh: "h \<le> length img_chan" "\<forall>y<h. w \<le> length (img_chan ! y)"
    by (simp_all add: shaped_def)
  have r: "floyd_steinberg_dither_channel img_chan w h = Inr out"
    unfolding out_def v0_def by (rule floyd_steinberg_refines [OF sh])
  have rng: "\<forall>c. in_grid w h c \<longrightarrow> 0 \<le> v0 c \<and> v0 c \<le> 1"
  proof (intro allI impI)
    fix c assume g: "in_grid w h c"
    with assms(1) have "nat (snd c) < length img_chan"
      "nat (fst c) < length (img_chan ! nat (snd c))"
      by (auto simp: in_grid_def shaped_def nat_less_iff)
    then have "img_chan ! nat (snd c) \<in> set img_chan"
      "img_chan ! nat (snd c) ! nat (fst c) \<in> set (img_chan ! nat (snd c))"
      by simp_all
    with assms(2) show "0 \<le> v0 c \<and> v0 c \<le> 1"
      unfolding v0_def plane_fun_def by blast
  qed
  have so: "real_of_int (sum_list (map sum_list out)) =
      (\<Sum>c\<in>{c. in_grid w h c}. real_of_int (snd (reference_diffusion w h v0) c))"
    unfolding out_def by (rule tabulate_sum_int)
  have "sum_list (map sum_list (tabulate w h v0)) = sum v0 {c. in_grid w h c}"
    by (rule tabulate_sum)
  then have si: "sum_list (map sum_list img_chan) = (\<Sum>c\<in>{c. in_grid w h c}. v0 c)"
    using shaped_tabulate [OF assms(1)] by (simp add: v0_def)
  have b: "\<bar>real_of_int (sum_list (map sum_list out)) - sum_list (map sum_list img_chan)\<bar>
       \<le> (11 * real h + 9 * real w - 4) / 32"
    using reference_coverage [OF rng] unfolding so si lost_total [OF assms(3,4)] by simp
  have "(11 * real h + 9 * real w - 4) / 32 \<le> real h" if "9 * w \<le> 21 * h + 4"
  proof -
    from that have "9 * real w \<le> 21 * real h + 4"
      by (metis (mono_tags) of_nat_le_iff of_nat_add of_nat_mult of_nat_numeral)
    then show ?thesis by simp
  qed
  with b r show ?thesis by fastforce
qed

theorem error_diffusion_coverage_bound_witness:
  "\<exists>out. floyd_steinberg_dither_channel (replicate 10 (replicate 10 (3 / 10))) 10 10 = Inr out \<and>
     \<bar>real_of_int (sum_list (map sum_list out)) - 30\<bar> \<le> 10"
proof -
  let ?img = "replicate 10 (replicate 10 (3 / 10 :: real))"
  have s: "shaped 10 10 ?img" by (simp add: shaped_def)
  have v: "\<forall>row\<in>set ?img. \<forall>v\<in>set row. 0 \<le> v \<and> v \<le> 1" by simp
  have t: "sum_list (map sum_list ?img) = 30"
    by (simp add: sum_list_replicate)
  from error_diffusion_coverage_bound [OF s v] obtain out where
    "floyd_steinberg_dither_channel ?img 10 10 = Inr out"
    "\<bar>real_of_int (sum_list (map sum_list out)) - sum_list (map sum_list ?img)\<bar> \<le> real (10::nat)"
    by auto
  then show ?thesis unfolding t by auto
qed

text \<open>
  The claim as stated, a difference of at most one dab per row for every plane, fails on a
  single row of five cells of value \<open>1/4\<close>: every cell is thresholded to 0 (the current
  values stay below \<open>1/2\<close>), so the outputs sum to 0 and the inputs to \<open>5/4\<close>, more than the
  one row. All values involved are dyadic, so floating point computes them exactly.
\<close>

lemma replicate_5_zero: "replicate 5 (0::int) = [0, 0, 0, 0, 0]"
  by (simp add: eval_nat_numeral)

lemma quarter_row_all_zero:
  "floyd_steinberg_dither_channel [[1 / 4, 1 / 4, 1 / 4, 1 / 4, 1 / 4]] 5 1 = Inr [[0, 0, 0, 0, 0]]"
  by (simp add: floyd_steinberg_dither_channel_def copy_plane_def read_cell_def fs_loop_def
      fs_row_def fs_cell_def add_cell_def set_cell_def Let_def upt_rec replicate_5_zero)

theorem coverage_not_within_one_per_row:
  "floyd_steinberg_dither_channel [[1 / 4, 1 / 4, 1 / 4, 1 / 4, 1 / 4]] 5 1 = Inr [[0, 0, 0, 0, 0]] \<and>
   \<not> \<bar>real_of_int (sum_list (map sum_list [[0, 0, 0, 0, 0]])) -
       sum_list (map sum_list [[1 / 4, 1 / 4, 1 / 4, 1 / 4, 1 / 4]])\<bar> \<le> real (1::nat)"
proof (rule conjI)
  show "floyd_steinberg_dither_channel [[1 / 4, 1 / 4, 1 / 4, 1 / 4, 1 / 4]] 5 1 = Inr [[0, 0, 0, 0, 0]]"
    by (rule quarter_row_all_zero)
  have "sum_list (map sum_list [[1 / 4, 1 / 4, 1 / 4, 1 / 4, 1 / 4 :: real]]) = 5 / 4"
    by simp
  moreover have "real_of_int (sum_list (map sum_list [[0, 0, 0, 0, 0]])) = 0"
    by simp
  ultimately show "\<not> \<bar>real_of_int (sum_list (map sum_list [[0, 0, 0, 0, 0]])) -
       sum_list (map sum_list [[1 / 4, 1 / 4, 1 / 4, 1 / 4, 1 / 4]])\<bar> \<le> real (1::nat)"
    by simp
qed

subsection \<open>The input plane is not mutated\<close>

lemma alloc_rows_eq:
  "alloc_rows S rs = (S @ map Row rs, [length S..<length S + length rs])"
proof (induction rs arbitrary: S)
  case Nil
  show ?case by simp
next
  case (Cons r rs)
  have "[length S..<length S + length (r # rs)] = length S # [Suc (length S)..<Suc (length S) + length rs]"
    using upt_conv_Cons [of "length S" "length S + length (r # rs)"] by simp
  then show ?case
    by (simp add: alloc_def Cons.IH)
qed

lemma new_plane_eq:
  "new_plane S rows =
     (S @ map Row rows @ [Plane [length S..<length S + length rows]], length S + length rows)"
  by (simp add: new_plane_def alloc_rows_eq alloc_def)

lemma store_rel_start:
  assumes "shaped w h rows"
  shows "store_rel w h (length S) (length S + h) (length S + h + 1 + h)
     (S @ map Row rows @ [Plane [length S..<length S + h]] @
      map Row (replicate h (replicate w 0)) @ [Plane [length S + h + 1..<length S + h + 1 + h]])
     (rows, replicate h (replicate w 0))"
proof -
  define n where "n = length S"
  define S2 where "S2 = S @ map Row rows @ [Plane [n..<n + h]] @
      map Row (replicate h (replicate w 0)) @ [Plane [n + h + 1..<n + h + 1 + h]]"
  from assms have lr: "length rows = h" by (simp add: shaped_def)
  have len: "length S2 = n + h + 1 + h + 1"
    by (simp add: S2_def n_def lr)
  have a1: "S2 ! (n + h) = Plane [n..<n + h]"
    by (simp add: S2_def n_def nth_append lr)
  have a2: "S2 ! (n + h + 1 + h) = Plane [n + h + 1..<n + h + 1 + h]"
    by (simp add: S2_def n_def nth_append lr)
  have r1: "S2 ! ([n..<n + h] ! y) = Row (rows ! y)" if "y < h" for y
    using that by (simp add: S2_def n_def nth_append lr)
  have r2: "S2 ! ([n + h + 1..<n + h + 1 + h] ! y) = Row (map real_of_int (replicate h (replicate w 0) ! y))"
    if "y < h" for y
    using that by (simp add: S2_def n_def nth_append lr)
  have d: "distinct ([n..<n + h] @ [n + h + 1..<n + h + 1 + h])"
    by auto
  have b: "\<forall>a\<in>set ([n..<n + h] @ [n + h + 1..<n + h + 1 + h]).
      n \<le> a \<and> a < length S2 \<and> a \<noteq> n + h \<and> a \<noteq> n + h + 1 + h"
    by (auto simp: len)
  have sz: "shaped w h (replicate h (replicate w (0::int)))"
    by (simp add: shaped_def)
  show ?thesis
    unfolding store_rel_def n_def [symmetric] S2_def [symmetric] fst_conv snd_conv
    using assms sz a1 a2 r1 r2 d b len
    by (intro conjI exI [of _ "[n..<n + h]"] exI [of _ "[n + h + 1..<n + h + 1 + h]"]) simp_all
qed

lemma get_cell_rel:
  assumes "store_rel w h n arr out S (a, ob)" "y < h"
  shows "get_cell S arr y x = a ! y ! x"
  using assms by (auto simp: store_rel_def get_cell_def)

lemma put_arr_rel:
  assumes rel: "store_rel w h n arr out S (a, ob)" and y: "y < h"
  shows "store_rel w h n arr out (put_cell S arr y x v) (a[y := (a ! y)[x := v]], ob)"
    and "\<forall>k<n. put_cell S arr y x v ! k = S ! k"
proof -
  from rel obtain ras oas where
    sa: "shaped w h a" and so: "shaped w h ob"
    and b: "n \<le> arr" "arr < length S" "n \<le> out" "out < length S"
    and pa: "S ! arr = Plane ras" and po: "S ! out = Plane oas"
    and l: "length ras = h" "length oas = h"
    and d: "distinct (ras @ oas)"
    and ad: "\<forall>a\<in>set (ras @ oas). n \<le> a \<and> a < length S \<and> a \<noteq> arr \<and> a \<noteq> out"
    and rw: "\<forall>y<h. S ! (ras ! y) = Row (a ! y) \<and> S ! (oas ! y) = Row (map real_of_int (ob ! y))"
    unfolding store_rel_def fst_conv snd_conv by blast
  define S' where "S' = S[ras ! y := Row ((a ! y)[x := v])]"
  have put: "put_cell S arr y x v = S'"
    using rw y by (simp add: put_cell_def pa S'_def)
  have ry: "ras ! y \<in> set (ras @ oas)" using y l by simp
  with ad have ryb: "n \<le> ras ! y" "ras ! y < length S" "ras ! y \<noteq> arr" "ras ! y \<noteq> out"
    by blast+
  have sa': "shaped w h (a[y := (a ! y)[x := v]])"
    using sa y by (intro shaped_update) (simp_all add: shaped_def)
  have rows: "S' ! (ras ! y') = Row (a[y := (a ! y)[x := v]] ! y') \<and>
      S' ! (oas ! y') = Row (map real_of_int (ob ! y'))" if y': "y' < h" for y'
  proof
    show "S' ! (ras ! y') = Row (a[y := (a ! y)[x := v]] ! y')"
    proof (cases "y' = y")
      case True
      with ryb sa y show ?thesis by (simp add: S'_def shaped_def)
    next
      case False
      from d have "distinct ras" by simp
      with False y y' l have "ras ! y' \<noteq> ras ! y"
        by (simp add: nth_eq_iff_index_eq)
      with False rw y' sa y show ?thesis by (simp add: S'_def shaped_def)
    qed
    from d y y' l have "oas ! y' \<noteq> ras ! y"
      by (metis disjoint_iff distinct_append nth_mem)
    with rw y' show "S' ! (oas ! y') = Row (map real_of_int (ob ! y'))"
      by (simp add: S'_def)
  qed
  show "store_rel w h n arr out (put_cell S arr y x v) (a[y := (a ! y)[x := v]], ob)"
    unfolding store_rel_def put fst_conv snd_conv
    using sa' so b pa po l d ad rows ryb
    by (intro conjI exI [of _ ras] exI [of _ oas]) (simp_all add: S'_def)
  show "\<forall>k<n. put_cell S arr y x v ! k = S ! k"
    unfolding put S'_def using ryb by simp
qed

lemma put_out_rel:
  assumes rel: "store_rel w h n arr out S (a, ob)" and y: "y < h"
  shows "store_rel w h n arr out (put_cell S out y x (real_of_int v)) (a, set_cell ob y x v)"
    and "\<forall>k<n. put_cell S out y x (real_of_int v) ! k = S ! k"
proof -
  from rel obtain ras oas where
    sa: "shaped w h a" and so: "shaped w h ob"
    and b: "n \<le> arr" "arr < length S" "n \<le> out" "out < length S"
    and pa: "S ! arr = Plane ras" and po: "S ! out = Plane oas"
    and l: "length ras = h" "length oas = h"
    and d: "distinct (ras @ oas)"
    and ad: "\<forall>a\<in>set (ras @ oas). n \<le> a \<and> a < length S \<and> a \<noteq> arr \<and> a \<noteq> out"
    and rw: "\<forall>y<h. S ! (ras ! y) = Row (a ! y) \<and> S ! (oas ! y) = Row (map real_of_int (ob ! y))"
    unfolding store_rel_def fst_conv snd_conv by blast
  define S' where "S' = S[oas ! y := Row ((map real_of_int (ob ! y))[x := real_of_int v])]"
  have put: "put_cell S out y x (real_of_int v) = S'"
    using rw y by (simp add: put_cell_def po S'_def)
  have ry: "oas ! y \<in> set (ras @ oas)" using y l by simp
  with ad have ryb: "n \<le> oas ! y" "oas ! y < length S" "oas ! y \<noteq> arr" "oas ! y \<noteq> out"
    by blast+
  have so': "shaped w h (set_cell ob y x v)"
    using so by (rule set_cell_shaped)
  have rows: "S' ! (ras ! y') = Row (a ! y') \<and>
      S' ! (oas ! y') = Row (map real_of_int (set_cell ob y x v ! y'))" if y': "y' < h" for y'
  proof
    from d y y' l have "ras ! y' \<noteq> oas ! y"
      by (metis disjoint_iff distinct_append nth_mem)
    with rw y' show "S' ! (ras ! y') = Row (a ! y')"
      by (simp add: S'_def)
    show "S' ! (oas ! y') = Row (map real_of_int (set_cell ob y x v ! y'))"
    proof (cases "y' = y")
      case True
      with ryb so y show ?thesis
        by (simp add: S'_def set_cell_def shaped_def map_update)
    next
      case False
      from d have "distinct oas" by simp
      with False y y' l have "oas ! y' \<noteq> oas ! y"
        by (simp add: nth_eq_iff_index_eq)
      with False rw y' so y show ?thesis by (simp add: S'_def set_cell_def shaped_def)
    qed
  qed
  show "store_rel w h n arr out (put_cell S out y x (real_of_int v)) (a, set_cell ob y x v)"
    unfolding store_rel_def put fst_conv snd_conv
    using sa so' b pa po l d ad rows ryb
    by (intro conjI exI [of _ ras] exI [of _ oas]) (simp_all add: S'_def)
  show "\<forall>k<n. put_cell S out y x (real_of_int v) ! k = S ! k"
    unfolding put S'_def using ryb by simp
qed

lemma cond_add_rel:
  assumes rel: "store_rel w h n arr out S (a, ob)" and y: "c \<Longrightarrow> y < h"
  shows "store_rel w h n arr out
      (if c then put_cell S arr y x (get_cell S arr y x + d) else S)
      (if c then add_cell a y x d else a, ob)"
    and "\<forall>k<n. (if c then put_cell S arr y x (get_cell S arr y x + d) else S) ! k = S ! k"
proof -
  show "store_rel w h n arr out
      (if c then put_cell S arr y x (get_cell S arr y x + d) else S)
      (if c then add_cell a y x d else a, ob)"
  proof (cases c)
    case True
    with y have yh: "y < h" by simp
    from put_arr_rel(1) [OF rel yh, of x "get_cell S arr y x + d"] True show ?thesis
      by (simp add: get_cell_rel [OF rel yh] add_cell_def)
  next
    case False
    with rel show ?thesis by simp
  qed
  show "\<forall>k<n. (if c then put_cell S arr y x (get_cell S arr y x + d) else S) ! k = S ! k"
  proof (cases c)
    case True
    with y have yh: "y < h" by simp
    from put_arr_rel(2) [OF rel yh, of x "get_cell S arr y x + d"] True show ?thesis
      by simp
  next
    case False
    then show ?thesis by simp
  qed
qed

lemma fs_cell_store_rel:
  assumes rel: "store_rel w h n arr out S s" and x: "x < w" and y: "y < h"
  shows "store_rel w h n arr out (fs_cell_store w h arr out y x S) (fs_cell w h y x s)"
    and "\<forall>k<n. fs_cell_store w h arr out y x S ! k = S ! k"
proof -
  obtain a ob where s: "s = (a, ob)" by (cases s)
  note rel0 = rel [unfolded s]
  define old where "old = a ! y ! x"
  define newi :: int where "newi = (if 1 / 2 \<le> old then 1 else 0)"
  define err where "err = old - real_of_int newi"
  define S1 where "S1 = put_cell S out y x (real_of_int newi)"
  define S2 where "S2 = (if x + 1 < w
      then put_cell S1 arr y (x + 1) (get_cell S1 arr y (x + 1) + err * 7 / 16) else S1)"
  define S3 where "S3 = (if y + 1 < h \<and> 0 < x
      then put_cell S2 arr (y + 1) (x - 1) (get_cell S2 arr (y + 1) (x - 1) + err * 3 / 16) else S2)"
  define S4 where "S4 = (if y + 1 < h
      then put_cell S3 arr (y + 1) x (get_cell S3 arr (y + 1) x + err * 5 / 16) else S3)"
  define S5 where "S5 = (if y + 1 < h \<and> x + 1 < w
      then put_cell S4 arr (y + 1) (x + 1) (get_cell S4 arr (y + 1) (x + 1) + err * 1 / 16) else S4)"
  define a2 where "a2 = (if x + 1 < w then add_cell a y (x + 1) (err * 7 / 16) else a)"
  define a3 where "a3 = (if y + 1 < h \<and> 0 < x then add_cell a2 (y + 1) (x - 1) (err * 3 / 16) else a2)"
  define a4 where "a4 = (if y + 1 < h then add_cell a3 (y + 1) x (err * 5 / 16) else a3)"
  define a5 where "a5 = (if y + 1 < h \<and> x + 1 < w then add_cell a4 (y + 1) (x + 1) (err * 1 / 16) else a4)"
  define ob1 where "ob1 = set_cell ob y x newi"
  have g: "get_cell S arr y x = old"
    by (simp add: get_cell_rel [OF rel0 y] old_def)
  have nw: "(if 1 / 2 \<le> old then 1 else 0) = real_of_int newi"
    by (simp add: newi_def)
  have lhs: "fs_cell_store w h arr out y x S = S5"
    unfolding fs_cell_store_def Let_def g nw err_def [symmetric] S1_def [symmetric]
      S2_def [symmetric] S3_def [symmetric] S4_def [symmetric] S5_def [symmetric] ..
  have rhs: "fs_cell w h y x s = (a5, ob1)"
    unfolding s fs_cell_def Let_def prod.case old_def [symmetric] newi_def [symmetric]
      err_def [symmetric] a2_def [symmetric] a3_def [symmetric] a4_def [symmetric]
      a5_def [symmetric] ob1_def [symmetric] ..
  have r1: "store_rel w h n arr out S1 (a, ob1)" and f1: "\<forall>k<n. S1 ! k = S ! k"
    unfolding S1_def ob1_def using put_out_rel [OF rel0 y] by blast+
  have r2: "store_rel w h n arr out S2 (a2, ob1)" and f2: "\<forall>k<n. S2 ! k = S1 ! k"
    unfolding S2_def a2_def using cond_add_rel [OF r1, of "x + 1 < w" y] y by blast+
  have r3: "store_rel w h n arr out S3 (a3, ob1)" and f3: "\<forall>k<n. S3 ! k = S2 ! k"
    unfolding S3_def a3_def using cond_add_rel [OF r2, of "y + 1 < h \<and> 0 < x" "y + 1"] by blast+
  have r4: "store_rel w h n arr out S4 (a4, ob1)" and f4: "\<forall>k<n. S4 ! k = S3 ! k"
    unfolding S4_def a4_def using cond_add_rel [OF r3, of "y + 1 < h" "y + 1"] by blast+
  have r5: "store_rel w h n arr out S5 (a5, ob1)" and f5: "\<forall>k<n. S5 ! k = S4 ! k"
    unfolding S5_def a5_def using cond_add_rel [OF r4, of "y + 1 < h \<and> x + 1 < w" "y + 1"] by blast+
  show "store_rel w h n arr out (fs_cell_store w h arr out y x S) (fs_cell w h y x s)"
    unfolding lhs rhs by (rule r5)
  show "\<forall>k<n. fs_cell_store w h arr out y x S ! k = S ! k"
    unfolding lhs using f1 f2 f3 f4 f5 by simp
qed

lemma fs_cells_store_rel:
  "\<forall>x\<in>set xs. x < w \<Longrightarrow> y < h \<Longrightarrow> store_rel w h n arr out S s \<Longrightarrow>
   store_rel w h n arr out (foldl (\<lambda>S x. fs_cell_store w h arr out y x S) S xs)
     (foldl (\<lambda>s x. fs_cell w h y x s) s xs) \<and>
   (\<forall>k<n. foldl (\<lambda>S x. fs_cell_store w h arr out y x S) S xs ! k = S ! k)"
proof (induction xs arbitrary: S s)
  case Nil
  then show ?case by simp
next
  case (Cons x xs)
  from Cons.prems have x: "x < w" by simp
  note st = fs_cell_store_rel [OF Cons.prems(3) x Cons.prems(2)]
  from Cons.IH [OF _ Cons.prems(2) st(1)] Cons.prems(1) st(2) show ?case
    by simp
qed

lemma fs_rows_store_rel:
  "\<forall>y\<in>set ys. y < h \<Longrightarrow> store_rel w h n arr out S s \<Longrightarrow>
   store_rel w h n arr out (foldl (\<lambda>S y. fs_row_store w h arr out y S) S ys)
     (foldl (\<lambda>s y. fs_row w h y s) s ys) \<and>
   (\<forall>k<n. foldl (\<lambda>S y. fs_row_store w h arr out y S) S ys ! k = S ! k)"
proof (induction ys arbitrary: S s)
  case Nil
  then show ?case by simp
next
  case (Cons y ys)
  from Cons.prems have y: "y < h" by simp
  have st: "store_rel w h n arr out (fs_row_store w h arr out y S) (fs_row w h y s) \<and>
      (\<forall>k<n. fs_row_store w h arr out y S ! k = S ! k)"
    unfolding fs_row_store_def fs_row_def
    by (rule fs_cells_store_rel [OF _ y Cons.prems(2)]) simp
  from Cons.IH [OF _ conjunct1 [OF st]] Cons.prems(1) st show ?case
    by simp
qed

lemma fs_loop_store_rel:
  assumes "store_rel w h n arr out S s"
  shows "store_rel w h n arr out (fs_loop_store w h arr out S) (fs_loop w h s)"
    and "\<forall>k<n. fs_loop_store w h arr out S ! k = S ! k"
  using fs_rows_store_rel [OF _ assms, of "[0..<h]"]
  unfolding fs_loop_store_def fs_loop_def by simp_all

lemma load_cell_holds:
  assumes "holds_plane S p vals"
  shows "load_cell S p y x = read_cell vals y x"
proof -
  from assms obtain rows where p: "p < length S" "S ! p = Plane rows"
    and l: "length rows = length vals"
    and r: "\<forall>y<length rows. rows ! y < length S \<and> S ! (rows ! y) = Row (vals ! y)"
    unfolding holds_plane_def by blast
  show ?thesis
  proof (cases "y < length vals")
    case True
    with r l have "rows ! y < length S" "S ! (rows ! y) = Row (vals ! y)" by simp_all
    with True p l show ?thesis
      by (simp add: load_cell_def read_cell_def lookup_def)
  next
    case False
    with p l show ?thesis
      by (simp add: load_cell_def read_cell_def lookup_def)
  qed
qed

text \<open>
  Claim C10. Let the store hold at \<open>img_chan\<close> a plane with the values \<open>vals\<close>, with at
  least \<open>h\<close> rows of at least \<open>w\<close> entries (rows may share an object). Then the pass
  returns; every object that existed before the call is unchanged after it, so the plane
  passed in still holds the values \<open>vals\<close>, element for element; the plane returned and all
  its rows are new objects; and the plane returned holds the result of the pass on list
  values.
\<close>

theorem error_diffusion_leaves_input_unchanged:
  assumes hp: "holds_plane S img_chan vals"
    and sz: "h \<le> length vals" "\<forall>y<h. w \<le> length (vals ! y)"
  shows "\<exists>S' out outp.
     floyd_steinberg_store S img_chan w h = Inr (S', out) \<and>
     length S \<le> length S' \<and> (\<forall>k<length S. S' ! k = S ! k) \<and>
     holds_plane S' img_chan vals \<and>
     fresh_plane (length S) S' out \<and>
     floyd_steinberg_dither_channel vals w h = Inr outp \<and>
     holds_plane S' out (map (map real_of_int) outp)"
proof -
  define n where "n = length S"
  define rows where "rows = map (\<lambda>y. map (\<lambda>x. vals ! y ! x) [0..<w]) [0..<h]"
  define zs :: "real list list" where "zs = replicate h (replicate w 0)"
  define arr where "arr = n + h"
  define out where "out = n + h + 1 + h"
  define S2 where "S2 = S @ map Row rows @ [Plane [n..<n + h]] @ map Row zs @
      [Plane [n + h + 1..<n + h + 1 + h]]"
  define S' where "S' = fs_loop_store w h arr out S2"
  define s' where "s' = fs_loop w h (rows, replicate h (replicate w (0::int)))"
  have cp: "copy_plane vals w h = Inr rows"
    unfolding rows_def by (rule copy_plane_ok [OF sz])
  have ld: "map_err (\<lambda>y. map_err (\<lambda>x. load_cell S img_chan y x) [0..<w]) [0..<h] = Inr rows"
    using cp by (simp add: load_cell_holds [OF hp] copy_plane_def)
  have sh: "shaped w h rows"
    by (simp add: rows_def shaped_def)
  then have lr: "length rows = h" by (simp add: shaped_def)
  have np1: "new_plane S rows = (S @ map Row rows @ [Plane [n..<n + h]], arr)"
    by (simp add: new_plane_eq n_def lr arr_def)
  have np2: "new_plane (S @ map Row rows @ [Plane [n..<n + h]]) zs = (S2, out)"
    by (simp add: new_plane_eq n_def lr S2_def out_def zs_def)
  have run: "floyd_steinberg_store S img_chan w h = Inr (S', out)"
    by (simp add: floyd_steinberg_store_def ld np1 np2 [unfolded zs_def] S'_def)
  have start: "store_rel w h n arr out S2 (rows, replicate h (replicate w 0))"
    unfolding n_def arr_def out_def S2_def zs_def by (rule store_rel_start [OF sh])
  note fin = fs_loop_store_rel [OF start]
  have rel: "store_rel w h n arr out S' s'"
    unfolding S'_def s'_def by (rule fin(1))
  have frame: "\<forall>k<n. S' ! k = S ! k"
    using fin(2) by (simp add: S'_def S2_def n_def nth_append)
  from rel obtain oas where
    so: "shaped w h (snd s')" and ob: "n \<le> out" "out < length S'"
    and po: "S' ! out = Plane oas" and lo: "length oas = h"
    and ad: "\<forall>a\<in>set oas. n \<le> a \<and> a < length S'"
    and rw: "\<forall>y<h. S' ! (oas ! y) = Row (map real_of_int (snd s' ! y))"
    unfolding store_rel_def by auto
  have len: "n \<le> length S'" using ob by simp
  have pure: "floyd_steinberg_dither_channel vals w h = Inr (snd s')"
    by (simp add: floyd_steinberg_dither_channel_def cp s'_def)
  have fresh: "fresh_plane n S' out"
    unfolding fresh_plane_def using ob po ad by blast
  have hout: "holds_plane S' out (map (map real_of_int) (snd s'))"
    unfolding holds_plane_def using ob po lo so rw ad
    by (intro conjI exI [of _ oas]) (simp_all add: shaped_def)
  have hin: "holds_plane S' img_chan vals"
  proof -
    from hp obtain rs where p: "img_chan < n" "S ! img_chan = Plane rs"
      and l: "length rs = length vals"
      and r: "\<forall>y<length rs. rs ! y < n \<and> S ! (rs ! y) = Row (vals ! y)"
      unfolding holds_plane_def n_def by blast
    show ?thesis
      unfolding holds_plane_def using p l r frame len
      by (intro conjI exI [of _ rs]) (auto intro: less_le_trans)
  qed
  from run len frame hin fresh pure hout show ?thesis
    unfolding n_def by blast
qed

theorem error_diffusion_leaves_input_unchanged_witness:
  "\<exists>S' out.
     floyd_steinberg_store [Row [1 / 4, 3 / 4], Plane [0, 0]] 1 2 2 = Inr (S', out) \<and>
     S' ! 0 = Row [1 / 4, 3 / 4] \<and> S' ! 1 = Plane [0, 0] \<and>
     fresh_plane 2 S' out \<and>
     holds_plane S' out [[0, 1], [0, 1]]"
proof -
  let ?S = "[Row [1 / 4, 3 / 4], Plane [0, 0]]"
  let ?vals = "[[1 / 4, 3 / 4], [1 / 4, 3 / 4 :: real]]"
  have hp: "holds_plane ?S 1 ?vals"
    by (simp add: holds_plane_def less_Suc_eq numeral_2_eq_2)
  have sz: "(2::nat) \<le> length ?vals" "\<forall>y<2. (2::nat) \<le> length (?vals ! y)"
    by (simp_all add: less_Suc_eq numeral_2_eq_2)
  have pure: "floyd_steinberg_dither_channel ?vals 2 2 = Inr [[0, 1], [0, 1]]"
    by code_simp
  from error_diffusion_leaves_input_unchanged [OF hp sz] pure
  obtain S' out where
    "floyd_steinberg_store ?S 1 2 2 = Inr (S', out)"
    "\<forall>k<length ?S. S' ! k = ?S ! k"
    "fresh_plane (length ?S) S' out"
    "holds_plane S' out (map (map real_of_int) [[0, 1], [0, 1]])"
    by auto
  then show ?thesis
    by (intro exI [of _ S'] exI [of _ out]) (simp add: numeral_2_eq_2)
qed

subsection \<open>The program is generated for every valid input\<close>
















subsection \<open>Configuration errors\<close>






end
